theory Spec2Isabelle
  imports Main
begin

section \<open>Data model\<close>

text \<open>
  Exceptions of the Python program. \<open>HttpError s\<close> is
  \<^verbatim>\<open>googleapiclient.errors.HttpError\<close> with \<^verbatim>\<open>error.resp.status = s\<close>;
  the other constructors are exceptions that are not \<^verbatim>\<open>HttpError\<close>.
\<close>

datatype exn = HttpError nat | OSError | ValueError | OtherError | RecursionError

text \<open>
  An entry of \<^verbatim>\<open>files(id, name, md5Checksum, size, mimeType)\<close> as \<^verbatim>\<open>list_sources\<close>
  returns it, with the \<^verbatim>\<open>resourceKey\<close> that \<^verbatim>\<open>list_sources\<close> stores in it.
  \<^verbatim>\<open>md5Checksum\<close> and \<^verbatim>\<open>size\<close> are absent for folders and native documents.
\<close>

record item =
  item_id :: string
  item_name :: string
  md5Checksum :: "string option"
  item_size :: "int option"
  mimeType :: string
  resourceKey :: "string option"

definition folder_mime :: string where
  "folder_mime = ''application/vnd.google-apps.folder''"

definition is_folder :: "item \<Rightarrow> bool" where
  "is_folder it = (mimeType it = folder_mime)"

text \<open>
  The remote store is outside the repository. It is modelled as a list of nodes; each
  node has its listed metadata, the ids of its parents, the trashed flag and its content
  as the sequence of chunks the downloader delivers.
\<close>

record node =
  node_item :: item
  parents :: "string list"
  trashed :: bool
  content :: "string list"

type_synonym path = "string list"

text \<open>The tqdm progress bar: \<^verbatim>\<open>total\<close> and the counter \<^verbatim>\<open>n\<close>.\<close>

record pbar =
  pb_total :: int
  pb_n :: int

text \<open>
  What a remote call meets: the service answers (\<open>NoFault\<close>), the client raises
  \<^verbatim>\<open>HttpError\<close> with a status, or it raises another exception.
\<close>

datatype fault = NoFault | HttpFault nat | OtherFault

datatype log_msg =
    Rate_limit_retrying nat
  | Exceeded_maximum_retry
  | An_error_occurred nat
  | Unexpected_error exn
  | Skipping_download
  | Downloading_file
  | Download_complete
  | File_written
  | File_deleted
  | Folder_deleted
  | Invalid_path
  | No_sources_available
  | Operation_cancelled
  | Operation_completed
  | Main_error exn

text \<open>
  The observable actions of a run, in the order they happen. \<open>DeleteFile\<close> is the
  call \<^verbatim>\<open>service.files().delete\<close> of \<^verbatim>\<open>download_file\<close>, \<open>DeleteFolder\<close> the one of
  \<^verbatim>\<open>delete_empty_folders\<close>. \<open>ListSourcesReturn\<close> records what a call of
  \<^verbatim>\<open>list_sources\<close> returned, \<open>Invoke\<close> a call of the function wrapped by the retry
  decorator.
\<close>

datatype event =
    FilesList string "nat option"
  | ListSourcesReturn "string option" "item list"
  | NextChunk string
  | DeleteFile string
  | DeleteFolder string
  | Mkdir path
  | ReadFile path
  | WriteFile path string
  | Sleep nat
  | Log log_msg
  | Print string
  | PbarCreated int
  | PbarUpdate int
  | PbarClosed pbar
  | Invoke

text \<open>
  The world a run acts on: the remote store, the local files and directories, the faults
  the next remote calls and the next local file operations meet (an empty schedule means
  no fault), and the trace of actions so far.
\<close>

record world =
  nodes :: "node list"
  local_files :: "path \<rightharpoonup> string"
  local_dirs :: "path list"
  remote_faults :: "fault list"
  local_faults :: "bool list"
  trace :: "event list"

definition emit :: "event \<Rightarrow> world \<Rightarrow> world" where
  "emit e w = w\<lparr>trace := trace w @ [e]\<rparr>"

definition pop_remote_fault :: "world \<Rightarrow> fault \<times> world" where
  "pop_remote_fault w =
     (case remote_faults w of
        [] \<Rightarrow> (NoFault, w)
      | f # fs \<Rightarrow> (f, w\<lparr>remote_faults := fs\<rparr>))"

definition pop_local_fault :: "world \<Rightarrow> bool \<times> world" where
  "pop_local_fault w =
     (case local_faults w of
        [] \<Rightarrow> (False, w)
      | f # fs \<Rightarrow> (f, w\<lparr>local_faults := fs\<rparr>))"

text \<open>The status codes both retry loops and the decorator treat as rate limiting.\<close>

definition transient :: "nat \<Rightarrow> bool" where
  "transient s = (s = 403 \<or> s = 429 \<or> s = 500 \<or> s = 503)"

section \<open>The remote service\<close>

definition parent_query :: "string \<Rightarrow> string" where
  "parent_query p = CHR 0x27 # p @ CHR 0x27 # '' in parents and trashed=false''"

definition all_query :: string where
  "all_query = ''trashed=false''"

text \<open>
  The \<^verbatim>\<open>q\<close> argument of \<^verbatim>\<open>list_sources\<close>:
  \<^verbatim>\<open>f"'{parent_id}' in parents and trashed=false" if parent_id else "trashed=false"\<close>.
  \<^verbatim>\<open>None\<close> and the empty string are both false in Python.
\<close>

definition list_query :: "string option \<Rightarrow> string" where
  "list_query parent_id =
     (case parent_id of
        None \<Rightarrow> all_query
      | Some p \<Rightarrow> if p = [] then all_query else parent_query p)"

text \<open>What the service answers to a query: the nodes that are not trashed and, when the
  query names a parent, have it among their parents.\<close>

definition matches_query :: "string \<Rightarrow> node \<Rightarrow> bool" where
  "matches_query q n =
     (\<not> trashed n \<and> (q = all_query \<or> list_ex (\<lambda>p. q = parent_query p) (parents n)))"

definition matching :: "string \<Rightarrow> node list \<Rightarrow> item list" where
  "matching q ns = map node_item (filter (matches_query q) ns)"

definition page_size :: nat where
  "page_size = 100"

text \<open>
  \<^verbatim>\<open>service.files().list(q=..., pageSize=100, pageToken=...).execute()\<close>: one page of at
  most 100 entries and the token of the next page, if any. A page token is the offset of
  the page.
\<close>

definition files_list_execute ::
  "string \<Rightarrow> nat option \<Rightarrow> world \<Rightarrow> (exn + item list \<times> nat option) \<times> world" where
  "files_list_execute q page_token w =
     (case pop_remote_fault (emit (FilesList q page_token) w) of
        (HttpFault s, w1) \<Rightarrow> (Inl (HttpError s), w1)
      | (OtherFault, w1) \<Rightarrow> (Inl OtherError, w1)
      | (NoFault, w1) \<Rightarrow>
          (let ms = matching q (nodes w1);
               off = (case page_token of None \<Rightarrow> 0 | Some t \<Rightarrow> t)
           in (Inr (take page_size (drop off ms),
                    if off + page_size < length ms then Some (off + page_size) else None),
               w1)))"

definition has_node :: "string \<Rightarrow> node list \<Rightarrow> bool" where
  "has_node fid ns = list_ex (\<lambda>n. item_id (node_item n) = fid) ns"

text \<open>
  \<^verbatim>\<open>service.files().delete(fileId=...).execute()\<close>; the first argument is the event of
  the calling site. A node that is not in the store gives status 404. Only the node
  itself is removed: what the service does with the nodes below a deleted folder is
  not part of the model.
\<close>

definition files_delete_execute ::
  "(string \<Rightarrow> event) \<Rightarrow> string \<Rightarrow> world \<Rightarrow> (exn + unit) \<times> world" where
  "files_delete_execute site fid w =
     (case pop_remote_fault (emit (site fid) w) of
        (HttpFault s, w1) \<Rightarrow> (Inl (HttpError s), w1)
      | (OtherFault, w1) \<Rightarrow> (Inl OtherError, w1)
      | (NoFault, w1) \<Rightarrow>
          if has_node fid (nodes w1)
          then (Inr (), w1\<lparr>nodes := filter (\<lambda>n. item_id (node_item n) \<noteq> fid) (nodes w1)\<rparr>)
          else (Inl (HttpError 404), w1))"

section \<open>Listing\<close>

text \<open>The \<^verbatim>\<open>while True\<close> loop of \<^verbatim>\<open>list_sources\<close>, one page per iteration.\<close>

function list_loop ::
  "string \<Rightarrow> string option \<Rightarrow> nat option \<Rightarrow> item list \<Rightarrow> world \<Rightarrow> (exn + item list) \<times> world" where
  "list_loop q resource_key page_token items w =
     (case files_list_execute q page_token w of
        (Inl e, w1) \<Rightarrow> (Inl e, w1)
      | (Inr (new_items, next_token), w1) \<Rightarrow>
          (let items1 = items @ map (\<lambda>it. it\<lparr>resourceKey := resource_key\<rparr>) new_items
           in case next_token of
                None \<Rightarrow> (Inr items1, w1)
              | Some t \<Rightarrow> list_loop q resource_key (Some t) items1 w1))"
  by pat_completeness auto

termination list_loop
proof (relation "measure (\<lambda>(q, rk, tok, items, w).
          length (matching q (nodes w)) - (case tok of None \<Rightarrow> 0 | Some t \<Rightarrow> t))", goal_cases)
  case 1
  show ?case by simp
next
  case prems: 2
  then show ?case
    by (auto simp: files_list_execute_def pop_remote_fault_def emit_def Let_def page_size_def
             split: list.splits fault.splits option.splits if_splits)
qed

declare list_loop.simps [simp del]

text \<open>
  \<^verbatim>\<open>list_sources\<close>: the pages are collected in a \<^verbatim>\<open>try\<close> whose
  \<^verbatim>\<open>except HttpError\<close> logs the error and returns the empty list; any other exception
  leaves the function.
\<close>

definition list_sources ::
  "string option \<Rightarrow> string option \<Rightarrow> world \<Rightarrow> (exn + item list) \<times> world" where
  "list_sources parent_id resource_key w =
     (case list_loop (list_query parent_id) resource_key None [] w of
        (Inl (HttpError s), w1) \<Rightarrow>
          (Inr [], emit (ListSourcesReturn parent_id []) (emit (Log (An_error_occurred s)) w1))
      | (Inl e, w1) \<Rightarrow> (Inl e, w1)
      | (Inr items, w1) \<Rightarrow> (Inr items, emit (ListSourcesReturn parent_id items) w1))"

section \<open>The retry decorator\<close>



section \<open>Local files\<close>

text \<open>\<^verbatim>\<open>dest_folder / name\<close> for a name of one component; an empty name adds nothing.\<close>

definition joinpath :: "path \<Rightarrow> string \<Rightarrow> path" where
  "joinpath p nm = (if nm = [] then p else p @ [nm])"

text \<open>
  \<^verbatim>\<open>PurePath.suffix\<close>: the position of the last dot of the final component, when it
  is neither the first nor the last character.
\<close>

definition suffix_pos :: "string \<Rightarrow> nat option" where
  "suffix_pos nm =
     (case filter (\<lambda>i. nm ! i = CHR ''.'') (rev [0..<length nm]) of
        [] \<Rightarrow> None
      | i # _ \<Rightarrow> if 0 < i \<and> i < length nm - 1 then Some i else None)"

text \<open>\<^verbatim>\<open>Path.with_suffix\<close>; a path with an empty name raises \<^verbatim>\<open>ValueError\<close>.\<close>

definition with_suffix :: "path \<Rightarrow> string \<Rightarrow> exn + path" where
  "with_suffix p suffix =
     (if p = [] \<or> last p = [] then Inl ValueError
      else case suffix_pos (last p) of
             None \<Rightarrow> Inr (butlast p @ [last p @ suffix])
           | Some i \<Rightarrow> Inr (butlast p @ [take i (last p) @ suffix]))"

text \<open>\<^verbatim>\<open>Path.mkdir(parents=True, exist_ok=True)\<close>.\<close>

definition local_mkdir :: "path \<Rightarrow> world \<Rightarrow> (exn + unit) \<times> world" where
  "local_mkdir p w =
     (case pop_local_fault (emit (Mkdir p) w) of
        (True, w1) \<Rightarrow> (Inl OSError, w1)
      | (False, w1) \<Rightarrow>
          if local_files w1 p \<noteq> None then (Inl OSError, w1)
          else (Inr (), w1\<lparr>local_dirs := List.insert p (local_dirs w1)\<rparr>))"

text \<open>\<^verbatim>\<open>Path.exists()\<close>: a file or a directory.\<close>

definition local_exists :: "path \<Rightarrow> world \<Rightarrow> bool" where
  "local_exists p w = (local_files w p \<noteq> None \<or> p \<in> set (local_dirs w))"

definition is_dir :: "path \<Rightarrow> world \<Rightarrow> bool" where
  "is_dir p w = (p \<in> set (local_dirs w))"

text \<open>\<^verbatim>\<open>open(path, 'rb')\<close> and \<^verbatim>\<open>read()\<close>.\<close>

definition local_read :: "path \<Rightarrow> world \<Rightarrow> (exn + string) \<times> world" where
  "local_read p w =
     (case pop_local_fault (emit (ReadFile p) w) of
        (True, w1) \<Rightarrow> (Inl OSError, w1)
      | (False, w1) \<Rightarrow>
          (case local_files w1 p of
             None \<Rightarrow> (Inl OSError, w1)
           | Some data \<Rightarrow> (Inr data, w1)))"

text \<open>\<^verbatim>\<open>open(path, 'wb')\<close> and \<^verbatim>\<open>write(data)\<close>.\<close>

definition local_write :: "path \<Rightarrow> string \<Rightarrow> world \<Rightarrow> (exn + unit) \<times> world" where
  "local_write p data w =
     (case pop_local_fault (emit (WriteFile p data) w) of
        (True, w1) \<Rightarrow> (Inl OSError, w1)
      | (False, w1) \<Rightarrow>
          if is_dir p w1 then (Inl OSError, w1)
          else (Inr (), w1\<lparr>local_files := (local_files w1)(p \<mapsto> data)\<rparr>))"

section \<open>The chunked download\<close>

text \<open>
  \<^verbatim>\<open>MediaIoBaseDownload(fh, request)\<close>: the file requested, the export type if the
  request is an export, the request headers, the number of chunks received and the
  buffer \<^verbatim>\<open>fh\<close>.
\<close>

record downloader =
  dl_file :: string
  dl_export :: "string option"
  dl_headers :: "(string \<times> string) list"
  dl_index :: nat
  fh :: string

definition find_node :: "string \<Rightarrow> node list \<Rightarrow> node option" where
  "find_node fid ns = find (\<lambda>n. item_id (node_item n) = fid) ns"

text \<open>
  \<^verbatim>\<open>downloader.next_chunk()\<close>: the next chunk of the node's content is appended to the
  buffer; the result is \<^verbatim>\<open>status.resumable_progress\<close>, the number of bytes received so
  far, and \<^verbatim>\<open>done\<close>. A failed call leaves the downloader as it was. An export
  request receives the chunks of the stored content: the conversion the service does to
  the export type is not part of the model.
\<close>

definition next_chunk :: "downloader \<Rightarrow> world \<Rightarrow> (exn + int \<times> bool) \<times> downloader \<times> world" where
  "next_chunk dl w =
     (case pop_remote_fault (emit (NextChunk (dl_file dl)) w) of
        (HttpFault s, w1) \<Rightarrow> (Inl (HttpError s), dl, w1)
      | (OtherFault, w1) \<Rightarrow> (Inl OtherError, dl, w1)
      | (NoFault, w1) \<Rightarrow>
          (case find_node (dl_file dl) (nodes w1) of
             None \<Rightarrow> (Inl (HttpError 404), dl, w1)
           | Some n \<Rightarrow>
               (let k = dl_index dl;
                    chunk = (if k < length (content n) then content n ! k else []);
                    dl1 = dl\<lparr>dl_index := k + 1, fh := fh dl @ chunk\<rparr>
                in (Inr (int (length (fh dl1)), length (content n) \<le> k + 1), dl1, w1))))"

definition remaining_chunks :: "downloader \<Rightarrow> world \<Rightarrow> nat" where
  "remaining_chunks dl w =
     (case find_node (dl_file dl) (nodes w) of
        None \<Rightarrow> 0
      | Some n \<Rightarrow> length (content n) - dl_index dl)"

text \<open>\<^verbatim>\<open>pbar.update(n)\<close> adds \<^verbatim>\<open>n\<close> to the counter.\<close>

definition pbar_update :: "int \<Rightarrow> pbar \<Rightarrow> pbar" where
  "pbar_update k pb = pb\<lparr>pb_n := pb_n pb + k\<rparr>"

text \<open>
  The inner loop of \<^verbatim>\<open>download_file\<close>:
  \<^verbatim>\<open>while done is False: status, done = downloader.next_chunk();
  pbar.update(int(status.resumable_progress))\<close>.
\<close>

function chunk_loop ::
  "downloader \<Rightarrow> pbar \<Rightarrow> world \<Rightarrow> (exn + unit) \<times> downloader \<times> pbar \<times> world" where
  "chunk_loop dl pb w =
     (case next_chunk dl w of
        (Inl e, dl1, w1) \<Rightarrow> (Inl e, dl1, pb, w1)
      | (Inr (progress, finished), dl1, w1) \<Rightarrow>
          if finished then (Inr (), dl1, pbar_update progress pb, emit (PbarUpdate progress) w1)
          else chunk_loop dl1 (pbar_update progress pb) (emit (PbarUpdate progress) w1))"
  by pat_completeness auto

termination chunk_loop
proof (relation "measure (\<lambda>(dl, pb, w). remaining_chunks dl w)", goal_cases)
  case 1
  show ?case by simp
next
  case prems: 2
  then show ?case
    by (auto simp: next_chunk_def remaining_chunks_def pop_remote_fault_def emit_def Let_def
             split: list.splits fault.splits option.splits if_splits)
qed

declare chunk_loop.simps [simp del]

text \<open>
  The retry loop of \<^verbatim>\<open>download_file\<close>, \<^verbatim>\<open>for _ in range(max_retry)\<close> with its
  \<^verbatim>\<open>else\<close> branch: the chunk loop runs inside \<^verbatim>\<open>try\<close>; when it ends the
  \<^verbatim>\<open>for\<close> is left by \<^verbatim>\<open>break\<close>; a rate-limit \<^verbatim>\<open>HttpError\<close> sleeps \<^verbatim>\<open>2**_\<close>
  seconds and starts the next round; another \<^verbatim>\<open>HttpError\<close> is raised again. When
  the rounds are used up, the \<^verbatim>\<open>else\<close> branch logs the error and the function goes on.
\<close>

fun retry_download ::
  "nat list \<Rightarrow> downloader \<Rightarrow> pbar \<Rightarrow> world \<Rightarrow> (exn + unit) \<times> downloader \<times> pbar \<times> world" where
  "retry_download [] dl pb w = (Inr (), dl, pb, emit (Log Exceeded_maximum_retry) w)"
| "retry_download (i # rest) dl pb w =
     (case chunk_loop dl pb w of
        (Inr u, dl1, pb1, w1) \<Rightarrow> (Inr (), dl1, pb1, w1)
      | (Inl (HttpError status), dl1, pb1, w1) \<Rightarrow>
          if transient status
          then retry_download rest dl1 pb1
                 (emit (Sleep (2 ^ i)) (emit (Log (Rate_limit_retrying (2 ^ i))) w1))
          else (Inl (HttpError status), dl1, pb1, w1)
      | (Inl e, dl1, pb1, w1) \<Rightarrow> (Inl e, dl1, pb1, w1))"

section \<open>Transfer of one file\<close>

definition export_type :: "string \<Rightarrow> (string \<times> string) option" where
  "export_type mime =
     (if mime = ''application/vnd.google-apps.document''
      then Some (''application/vnd.openxmlformats-officedocument.wordprocessingml.document'',
                 ''.docx'')
      else if mime = ''application/vnd.google-apps.spreadsheet''
      then Some (''application/vnd.openxmlformats-officedocument.spreadsheetml.sheet'',
                 ''.xlsx'')
      else if mime = ''application/vnd.google-apps.presentation''
      then Some (''application/vnd.openxmlformats-officedocument.presentationml.presentation'',
                 ''.pptx'')
      else None)"

text \<open>
  The request of \<^verbatim>\<open>download_file\<close> (\<^verbatim>\<open>export_media\<close> or \<^verbatim>\<open>get_media\<close>) with the
  path the file is written to, the resource key header and the new downloader.
  No remote call is made here.
\<close>

definition new_downloader :: "item \<Rightarrow> path \<Rightarrow> exn + downloader \<times> path" where
  "new_downloader it dest_file_path =
     (let headers = [(''X-Goog-Drive-Resource-Keys'',
                      item_id it @ ''/'' @ (case resourceKey it of None \<Rightarrow> ''None'' | Some k \<Rightarrow> k))]
      in case export_type (mimeType it) of
           None \<Rightarrow>
             Inr (\<lparr>dl_file = item_id it, dl_export = None, dl_headers = headers,
                   dl_index = 0, fh = []\<rparr>, dest_file_path)
         | Some (target, suffix) \<Rightarrow>
             (case with_suffix dest_file_path suffix of
                Inl e \<Rightarrow> Inl e
              | Inr p \<Rightarrow>
                  Inr (\<lparr>dl_file = item_id it, dl_export = Some target, dl_headers = headers,
                        dl_index = 0, fh = []\<rparr>, p)))"

text \<open>
  Lines 143 to 192 of \<^verbatim>\<open>download_file\<close>: the download with its retry loop, the write
  of \<^verbatim>\<open>fh.getvalue()\<close> to the destination file, and the deletion of the file from the
  remote store, whose \<^verbatim>\<open>HttpError\<close> is logged.
\<close>

definition download_file_fetch ::
  "item \<Rightarrow> path \<Rightarrow> pbar \<Rightarrow> nat \<Rightarrow> world \<Rightarrow> (exn + unit) \<times> pbar \<times> world" where
  "download_file_fetch it dest_file_path pb max_retry w =
     (case new_downloader it dest_file_path of
        Inl e \<Rightarrow> (Inl e, pb, emit (Log Downloading_file) w)
      | Inr (dl, out_path) \<Rightarrow>
          (case retry_download [0..<max_retry] dl pb (emit (Log Downloading_file) w) of
             (Inl e, dl1, pb1, w1) \<Rightarrow> (Inl e, pb1, w1)
           | (Inr u, dl1, pb1, w1) \<Rightarrow>
               (case local_write out_path (fh dl1) (emit (Log Download_complete) w1) of
                  (Inl e, w2) \<Rightarrow> (Inl e, pb1, w2)
                | (Inr u1, w2) \<Rightarrow>
                    (case files_delete_execute DeleteFile (item_id it) (emit (Log File_written) w2) of
                       (Inr u2, w3) \<Rightarrow> (Inr (), pb1, emit (Log File_deleted) w3)
                     | (Inl (HttpError s), w3) \<Rightarrow> (Inr (), pb1, emit (Log (An_error_occurred s)) w3)
                     | (Inl e, w3) \<Rightarrow> (Inl e, pb1, w3)))))"

text \<open>
  The \<^verbatim>\<open>try\<close> block of \<^verbatim>\<open>download_file\<close>: the destination folder is created; when
  the destination file exists and its MD5 equals the item's \<^verbatim>\<open>md5Checksum\<close>, the
  function returns; otherwise the file is fetched. \<open>md5\<close> stands for
  \<^verbatim>\<open>hashlib.md5(...).hexdigest()\<close>.
\<close>

definition download_file_try ::
  "(string \<Rightarrow> string) \<Rightarrow> item \<Rightarrow> path \<Rightarrow> pbar \<Rightarrow> nat \<Rightarrow> world \<Rightarrow> (exn + unit) \<times> pbar \<times> world" where
  "download_file_try md5 it dest_folder pb max_retry w =
     (let dest_file_path = joinpath dest_folder (item_name it)
      in case local_mkdir dest_folder w of
           (Inl e, w1) \<Rightarrow> (Inl e, pb, w1)
         | (Inr u, w1) \<Rightarrow>
             if local_exists dest_file_path w1
             then (case local_read dest_file_path w1 of
                     (Inl e, w2) \<Rightarrow> (Inl e, pb, w2)
                   | (Inr data, w2) \<Rightarrow>
                       if Some (md5 data) = md5Checksum it
                       then (Inr (), pb, emit (Log Skipping_download) w2)
                       else download_file_fetch it dest_file_path pb max_retry w2)
             else download_file_fetch it dest_file_path pb max_retry w1)"

text \<open>
  \<^verbatim>\<open>download_file\<close>: the name is printed, then the \<^verbatim>\<open>try\<close> block runs; its
  \<^verbatim>\<open>except HttpError\<close> logs the error. Every other exception leaves the function.
\<close>

definition download_file ::
  "(string \<Rightarrow> string) \<Rightarrow> item \<Rightarrow> path \<Rightarrow> pbar \<Rightarrow> nat \<Rightarrow> world \<Rightarrow> (exn + unit) \<times> pbar \<times> world" where
  "download_file md5 it dest_folder pb max_retry w =
     (case download_file_try md5 it dest_folder pb max_retry (emit (Print (item_name it)) w) of
        (Inl (HttpError s), pb1, w1) \<Rightarrow> (Inr (), pb1, emit (Log (An_error_occurred s)) w1)
      | (Inl e, pb1, w1) \<Rightarrow> (Inl e, pb1, w1)
      | (Inr u, pb1, w1) \<Rightarrow> (Inr (), pb1, w1))"

section \<open>Totals\<close>

text \<open>
  The recursive functions take the number of nested calls the interpreter still allows;
  Python raises \<^verbatim>\<open>RecursionError\<close> when none is left.

  \<^verbatim>\<open>get_total_files\<close>: \<^verbatim>\<open>total_files = len(items)\<close>, then the total of every folder
  among the items is added.
\<close>

fun get_total_files :: "nat \<Rightarrow> string \<Rightarrow> world \<Rightarrow> (exn + int) \<times> world"
  and total_files_loop :: "nat \<Rightarrow> item list \<Rightarrow> int \<Rightarrow> world \<Rightarrow> (exn + int) \<times> world" where
  "get_total_files 0 parent_id w = (Inl RecursionError, w)"
| "get_total_files (Suc d) parent_id w =
     (case list_sources (Some parent_id) None w of
        (Inl e, w1) \<Rightarrow> (Inl e, w1)
      | (Inr items, w1) \<Rightarrow> total_files_loop d items (int (length items)) w1)"
| "total_files_loop d [] total_files w = (Inr total_files, w)"
| "total_files_loop d (it # rest) total_files w =
     (if is_folder it
      then (case get_total_files d (item_id it) w of
              (Inl e, w1) \<Rightarrow> (Inl e, w1)
            | (Inr n, w1) \<Rightarrow> total_files_loop d rest (total_files + n) w1)
      else total_files_loop d rest total_files w)"

text \<open>\<^verbatim>\<open>int(item.get('size', 0))\<close>.\<close>

definition size_of :: "item \<Rightarrow> int" where
  "size_of it = (case item_size it of None \<Rightarrow> 0 | Some n \<Rightarrow> n)"

text \<open>
  \<^verbatim>\<open>get_total_size\<close>: the sizes of the items that are not folders, then the total of
  every folder among the items is added.
\<close>

fun get_total_size :: "nat \<Rightarrow> string \<Rightarrow> world \<Rightarrow> (exn + int) \<times> world"
  and total_size_loop :: "nat \<Rightarrow> item list \<Rightarrow> int \<Rightarrow> world \<Rightarrow> (exn + int) \<times> world" where
  "get_total_size 0 parent_id w = (Inl RecursionError, w)"
| "get_total_size (Suc d) parent_id w =
     (case list_sources (Some parent_id) None w of
        (Inl e, w1) \<Rightarrow> (Inl e, w1)
      | (Inr items, w1) \<Rightarrow>
          total_size_loop d items
            (sum_list (map size_of (filter (\<lambda>it. \<not> is_folder it) items))) w1)"
| "total_size_loop d [] total_size w = (Inr total_size, w)"
| "total_size_loop d (it # rest) total_size w =
     (if is_folder it
      then (case get_total_size d (item_id it) w of
              (Inl e, w1) \<Rightarrow> (Inl e, w1)
            | (Inr n, w1) \<Rightarrow> total_size_loop d rest (total_size + n) w1)
      else total_size_loop d rest total_size w)"

section \<open>Folder cleanup\<close>

text \<open>
  The retry loop of \<^verbatim>\<open>delete_empty_folders\<close>, \<^verbatim>\<open>for _ in range(max_retry)\<close> with
  its \<^verbatim>\<open>else\<close> branch.
\<close>

fun delete_retry :: "nat list \<Rightarrow> string \<Rightarrow> world \<Rightarrow> (exn + unit) \<times> world" where
  "delete_retry [] folder_id w = (Inr (), emit (Log Exceeded_maximum_retry) w)"
| "delete_retry (i # rest) folder_id w =
     (case files_delete_execute DeleteFolder folder_id w of
        (Inr u, w1) \<Rightarrow> (Inr (), emit (Log Folder_deleted) w1)
      | (Inl (HttpError status), w1) \<Rightarrow>
          if transient status
          then delete_retry rest folder_id
                 (emit (Sleep (2 ^ i)) (emit (Log (Rate_limit_retrying (2 ^ i))) w1))
          else (Inl (HttpError status), w1)
      | (Inl e, w1) \<Rightarrow> (Inl e, w1))"

text \<open>
  \<^verbatim>\<open>delete_empty_folders\<close>: the folder is listed; when the list is empty the folder is
  deleted, otherwise the function is called on every folder of the list, with the
  default \<^verbatim>\<open>max_retry=5\<close>.
\<close>

fun delete_empty_folders :: "nat \<Rightarrow> string \<Rightarrow> nat \<Rightarrow> world \<Rightarrow> (exn + unit) \<times> world"
  and delete_folders_loop :: "nat \<Rightarrow> item list \<Rightarrow> world \<Rightarrow> (exn + unit) \<times> world" where
  "delete_empty_folders 0 folder_id max_retry w = (Inl RecursionError, w)"
| "delete_empty_folders (Suc d) folder_id max_retry w =
     (case list_sources (Some folder_id) None w of
        (Inl e, w1) \<Rightarrow> (Inl e, w1)
      | (Inr items, w1) \<Rightarrow>
          if items = [] then delete_retry [0..<max_retry] folder_id w1
          else delete_folders_loop d items w1)"
| "delete_folders_loop d [] w = (Inr (), w)"
| "delete_folders_loop d (it # rest) w =
     (if is_folder it
      then (case delete_empty_folders d (item_id it) 5 w of
              (Inl e, w1) \<Rightarrow> (Inl e, w1)
            | (Inr u, w1) \<Rightarrow> delete_folders_loop d rest w1)
      else delete_folders_loop d rest w)"

section \<open>The walk\<close>

text \<open>
  The first loop of \<^verbatim>\<open>download_files\<close>: \<^verbatim>\<open>download_file\<close> for every item that is not
  a folder, with the progress bar of this call and the default \<^verbatim>\<open>max_retry=5\<close>.
\<close>

fun download_files_loop ::
  "(string \<Rightarrow> string) \<Rightarrow> item list \<Rightarrow> path \<Rightarrow> pbar \<Rightarrow> world \<Rightarrow> (exn + unit) \<times> pbar \<times> world" where
  "download_files_loop md5 [] dest_folder pb w = (Inr (), pb, w)"
| "download_files_loop md5 (it # rest) dest_folder pb w =
     (if \<not> is_folder it
      then (case download_file md5 it dest_folder pb 5 w of
              (Inl e, pb1, w1) \<Rightarrow> (Inl e, pb1, w1)
            | (Inr u, pb1, w1) \<Rightarrow> download_files_loop md5 rest dest_folder pb1 w1)
      else download_files_loop md5 rest dest_folder pb w)"

record source =
  src_id :: string
  src_name :: string

text \<open>
  \<^verbatim>\<open>download_files\<close>: the destination folder (a subfolder unless \<^verbatim>\<open>is_root\<close>) is
  created and the source is listed; a progress bar is opened with the total of
  \<^verbatim>\<open>get_total_size\<close>; inside its \<^verbatim>\<open>with\<close> block the files are downloaded and then
  \<^verbatim>\<open>download_files\<close> is called on every folder of the list; the bar is closed when the
  block is left, also by an exception. Last, \<^verbatim>\<open>delete_empty_folders\<close> is called on the
  source.
\<close>

fun download_files ::
    "nat \<Rightarrow> (string \<Rightarrow> string) \<Rightarrow> source \<Rightarrow> path \<Rightarrow> bool \<Rightarrow> world \<Rightarrow> (exn + unit) \<times> world"
  and download_folders_loop ::
    "nat \<Rightarrow> (string \<Rightarrow> string) \<Rightarrow> item list \<Rightarrow> path \<Rightarrow> world \<Rightarrow> (exn + unit) \<times> world" where
  "download_files 0 md5 source dest_folder is_root w = (Inl RecursionError, w)"
| "download_files (Suc d) md5 source dest_folder is_root w =
     (let dest = (if \<not> is_root then joinpath dest_folder (src_name source) else dest_folder)
      in case local_mkdir dest w of
           (Inl e, w1) \<Rightarrow> (Inl e, w1)
         | (Inr u, w1) \<Rightarrow>
      (case list_sources (Some (src_id source)) None w1 of
           (Inl e, w2) \<Rightarrow> (Inl e, w2)
         | (Inr items, w2) \<Rightarrow>
      (case get_total_size d (src_id source) w2 of
           (Inl e, w3) \<Rightarrow> (Inl e, w3)
         | (Inr total_size, w3) \<Rightarrow>
      (case download_files_loop md5 items dest \<lparr>pb_total = total_size, pb_n = 0\<rparr>
              (emit (PbarCreated total_size) w3) of
           (Inl e, pb1, w4) \<Rightarrow> (Inl e, emit (PbarClosed pb1) w4)
         | (Inr u1, pb1, w4) \<Rightarrow>
      (case download_folders_loop d md5 items dest w4 of
           (Inl e, w5) \<Rightarrow> (Inl e, emit (PbarClosed pb1) w5)
         | (Inr u2, w5) \<Rightarrow>
             delete_empty_folders d (src_id source) 5 (emit (PbarClosed pb1) w5))))))"
| "download_folders_loop d md5 [] dest_folder w = (Inr (), w)"
| "download_folders_loop d md5 (it # rest) dest_folder w =
     (if is_folder it
      then (case download_files d md5 \<lparr>src_id = item_id it, src_name = item_name it\<rparr>
                   dest_folder False w of
              (Inl e, w1) \<Rightarrow> (Inl e, w1)
            | (Inr u, w1) \<Rightarrow> download_folders_loop d md5 rest dest_folder w1)
      else download_folders_loop d md5 rest dest_folder w)"

section \<open>The job\<close>

text \<open>What the user types: the folder id, the resource key, the destination folders
  tried, and the answer to the warning.\<close>

record job_input =
  in_folder_id :: string
  in_resource_key :: string
  in_destinations :: "path list"
  in_confirmation :: string

text \<open>
  \<^verbatim>\<open>get_destination(attempts=3)\<close>: the first input that is a directory; after three
  invalid inputs \<^verbatim>\<open>ValueError\<close>. Reading past the end of the input raises.
\<close>

fun get_destination :: "nat \<Rightarrow> path list \<Rightarrow> world \<Rightarrow> (exn + path) \<times> world" where
  "get_destination 0 inputs w = (Inl ValueError, w)"
| "get_destination (Suc k) [] w = (Inl OtherError, w)"
| "get_destination (Suc k) (p # rest) w =
     (if is_dir p w then (Inr p, w) else get_destination k rest (emit (Log Invalid_path) w))"

definition lower_char :: "char \<Rightarrow> char" where
  "lower_char c =
     (let n = (of_char c :: nat) in if 65 \<le> n \<and> n \<le> 90 then char_of (n + 32) else c)"

definition is_space :: "char \<Rightarrow> bool" where
  "is_space c = ((of_char c :: nat) = 32 \<or> (9 \<le> (of_char c :: nat) \<and> (of_char c :: nat) \<le> 13))"

text \<open>\<^verbatim>\<open>confirmation.lower().strip()\<close>\<close>

definition lower_strip :: "string \<Rightarrow> string" where
  "lower_strip s = rev (dropWhile is_space (rev (dropWhile is_space (map lower_char s))))"

text \<open>
  The \<^verbatim>\<open>try\<close> block of \<^verbatim>\<open>main\<close> from the prompt for the folder id on; the
  credentials, the configuration and the logging setup before it are left out.
\<close>

definition main_try ::
  "nat \<Rightarrow> (string \<Rightarrow> string) \<Rightarrow> job_input \<Rightarrow> world \<Rightarrow> (exn + unit) \<times> world" where
  "main_try depth md5 inp w =
     (case list_sources (Some (in_folder_id inp)) (Some (in_resource_key inp)) w of
        (Inl e, w1) \<Rightarrow> (Inl e, w1)
      | (Inr all_sources, w1) \<Rightarrow>
          if all_sources = [] then (Inr (), emit (Log No_sources_available) w1)
          else (case get_destination 3 (in_destinations inp) w1 of
                  (Inl e, w2) \<Rightarrow> (Inl e, w2)
                | (Inr dest_folder, w2) \<Rightarrow>
                    if lower_strip (in_confirmation inp) \<noteq> ''yes''
                       \<and> lower_strip (in_confirmation inp) \<noteq> ''y''
                    then (Inr (), emit (Log Operation_cancelled) w2)
                    else (case download_files depth md5
                                 \<lparr>src_id = in_folder_id inp, src_name = ''Folder to Download''\<rparr>
                                 dest_folder True w2 of
                            (Inl e, w3) \<Rightarrow> (Inl e, w3)
                          | (Inr u, w3) \<Rightarrow> (Inr (), emit (Log Operation_completed) w3))))"

text \<open>\<^verbatim>\<open>main\<close>: \<^verbatim>\<open>except Exception\<close> logs whatever the block raised.\<close>

definition main :: "nat \<Rightarrow> (string \<Rightarrow> string) \<Rightarrow> job_input \<Rightarrow> world \<Rightarrow> world" where
  "main depth md5 inp w =
     (case main_try depth md5 inp w of
        (Inl e, w1) \<Rightarrow> emit (Log (Main_error e)) w1
      | (Inr u, w1) \<Rightarrow> w1)"

section \<open>Observations on traces\<close>


definition sleeps :: "event list \<Rightarrow> nat list" where
  "sleeps tr = concat (map (\<lambda>e. case e of Sleep d \<Rightarrow> [d] | _ \<Rightarrow> []) tr)"


text \<open>The progress bar events of a trace, its remote calls, the names it prints and the
  files whose deletion it attempts.\<close>

definition progress_events :: "event list \<Rightarrow> event list" where
  "progress_events tr =
     filter (\<lambda>e. case e of PbarCreated t \<Rightarrow> True | PbarUpdate k \<Rightarrow> True | PbarClosed pb \<Rightarrow> True
                   | _ \<Rightarrow> False) tr"

definition remote_calls :: "event list \<Rightarrow> event list" where
  "remote_calls tr =
     filter (\<lambda>e. case e of FilesList q t \<Rightarrow> True | NextChunk f \<Rightarrow> True | DeleteFile f \<Rightarrow> True
                   | DeleteFolder f \<Rightarrow> True | _ \<Rightarrow> False) tr"

definition prints :: "event list \<Rightarrow> string list" where
  "prints tr = concat (map (\<lambda>e. case e of Print n \<Rightarrow> [n] | _ \<Rightarrow> []) tr)"

definition file_deletes :: "event list \<Rightarrow> string list" where
  "file_deletes tr = concat (map (\<lambda>e. case e of DeleteFile f \<Rightarrow> [f] | _ \<Rightarrow> []) tr)"

text \<open>The folders whose deletion a trace attempts, in the order of the attempts.\<close>

definition folder_deletes :: "event list \<Rightarrow> string list" where
  "folder_deletes tr = concat (map (\<lambda>e. case e of DeleteFolder f \<Rightarrow> [f] | _ \<Rightarrow> []) tr)"

section \<open>Events a call adds to the trace\<close>

text \<open>\<open>extends P w w'\<close>: the trace of \<open>w'\<close> is the trace of \<open>w\<close> followed by
  events that all satisfy \<open>P\<close>.\<close>

definition extends :: "(event \<Rightarrow> bool) \<Rightarrow> world \<Rightarrow> world \<Rightarrow> bool" where
  "extends P w w' = (\<exists>new. trace w' = trace w @ new \<and> list_all P new)"

text \<open>
  Classes of events: those of a listing; those of the chunk loop and its retries; those of
  the \<^verbatim>\<open>try\<close> block of \<^verbatim>\<open>download_file\<close>; those of \<^verbatim>\<open>download_file\<close>; and the
  events that are not the deletion of a folder.
\<close>

definition listing_event :: "event \<Rightarrow> bool" where
  "listing_event e =
     (case e of
        FilesList q t \<Rightarrow> True | ListSourcesReturn p its \<Rightarrow> True | Log m \<Rightarrow> True
      | _ \<Rightarrow> False)"

definition chunk_event :: "event \<Rightarrow> bool" where
  "chunk_event e =
     (case e of
        NextChunk f \<Rightarrow> True | PbarUpdate k \<Rightarrow> True | Log m \<Rightarrow> True | Sleep d \<Rightarrow> True
      | _ \<Rightarrow> False)"

definition transfer_event :: "event \<Rightarrow> bool" where
  "transfer_event e =
     (case e of
        NextChunk f \<Rightarrow> True | PbarUpdate k \<Rightarrow> True | Log m \<Rightarrow> True | Sleep d \<Rightarrow> True
      | Mkdir p \<Rightarrow> True | ReadFile p \<Rightarrow> True | WriteFile p d \<Rightarrow> True | DeleteFile f \<Rightarrow> True
      | _ \<Rightarrow> False)"

definition file_event :: "event \<Rightarrow> bool" where
  "file_event e = (case e of Print n \<Rightarrow> True | _ \<Rightarrow> transfer_event e)"

definition not_folder_delete :: "event \<Rightarrow> bool" where
  "not_folder_delete e = (case e of DeleteFolder f \<Rightarrow> False | _ \<Rightarrow> True)"

section \<open>Folder deletions and the listing before them\<close>

text \<open>
  A trace is read from its start with a permit: a call of \<^verbatim>\<open>list_sources\<close> that
  returns no item gives the permit to delete the folder listed, one that returns items
  takes it away. A deletion of a folder needs the permit for this folder. The log lines
  and sleeps of the retry loop keep the permit, every other event takes it away. So each
  deletion attempt on a folder follows a listing of this folder that returned nothing,
  with only earlier attempts of the same deletion in between.
\<close>

definition guard_step :: "string option \<times> bool \<Rightarrow> event \<Rightarrow> string option \<times> bool" where
  "guard_step st e =
     (case e of
        ListSourcesReturn parent_id items \<Rightarrow> (if items = [] then parent_id else None, snd st)
      | DeleteFolder f \<Rightarrow> (fst st, snd st \<and> fst st = Some f)
      | Sleep d \<Rightarrow> st
      | Log m \<Rightarrow> st
      | _ \<Rightarrow> (None, snd st))"

definition guard_run :: "event list \<Rightarrow> string option \<times> bool" where
  "guard_run tr = foldl guard_step (None, True) tr"

definition deletes_guarded :: "event list \<Rightarrow> bool" where
  "deletes_guarded tr = snd (guard_run tr)"

definition permitted :: "event list \<Rightarrow> string option" where
  "permitted tr = fst (guard_run tr)"

section \<open>Notions used in the properties\<close>

text \<open>The offset a page token stands for, and the items of a page with the resource key
  \<^verbatim>\<open>list_sources\<close> stores in them.\<close>

definition offset :: "nat option \<Rightarrow> nat" where
  "offset tok = (case tok of None \<Rightarrow> 0 | Some t \<Rightarrow> t)"

definition with_key :: "string option \<Rightarrow> item list \<Rightarrow> item list" where
  "with_key rk its = map (\<lambda>it. it\<lparr>resourceKey := rk\<rparr>) its"

text \<open>What a call leaves as it was: the remote store, the local files.\<close>

definition same_store :: "world \<Rightarrow> world \<Rightarrow> bool" where
  "same_store w w1 = (nodes w1 = nodes w)"

definition same_local :: "world \<Rightarrow> world \<Rightarrow> bool" where
  "same_local w w1 =
     (local_files w1 = local_files w \<and> local_dirs w1 = local_dirs w \<and> local_faults w1 = local_faults w)"

text \<open>A progress bar after some updates: the total is the same and the counter is not
  smaller.\<close>

definition advanced :: "pbar \<Rightarrow> pbar \<Rightarrow> bool" where
  "advanced pb pb1 = (pb_total pb1 = pb_total pb \<and> pb_n pb \<le> pb_n pb1)"

text \<open>The exceptions that leave \<^verbatim>\<open>download_file\<close>, and the exceptions of a remote
  call.\<close>

definition local_exn :: "exn \<Rightarrow> bool" where
  "local_exn e = (case e of HttpError s \<Rightarrow> False | RecursionError \<Rightarrow> False | _ \<Rightarrow> True)"

definition remote_exn :: "exn \<Rightarrow> bool" where
  "remote_exn e = (case e of HttpError s \<Rightarrow> True | OtherError \<Rightarrow> True | _ \<Rightarrow> False)"


text \<open>
  The progress bars of a trace, read from its start with the list of the bars that are
  open, the innermost first. Creating a bar opens it with the counter 0. An update needs
  an open bar and a non-negative amount, and adds the amount to the innermost open
  bar. Closing a bar needs the innermost open bar to be the bar closed, with the total it
  was created with and the counter the updates gave it. A chunk is fetched only while a
  bar is open. Every other event leaves the bars as they are.
\<close>

definition bar_step :: "pbar list \<times> bool \<Rightarrow> event \<Rightarrow> pbar list \<times> bool" where
  "bar_step st e =
     (case e of
        PbarCreated t \<Rightarrow> (\<lparr>pb_total = t, pb_n = 0\<rparr> # fst st, snd st)
      | PbarUpdate k \<Rightarrow>
          (case fst st of
             [] \<Rightarrow> ([], False)
           | pb # rest \<Rightarrow> (pbar_update k pb # rest, snd st \<and> 0 \<le> k))
      | PbarClosed pb \<Rightarrow>
          (case fst st of
             [] \<Rightarrow> ([], False)
           | pb' # rest \<Rightarrow> (rest, snd st \<and> pb' = pb))
      | NextChunk f \<Rightarrow> (fst st, snd st \<and> fst st \<noteq> [])
      | _ \<Rightarrow> st)"

definition bar_run :: "event list \<Rightarrow> pbar list \<times> bool" where
  "bar_run tr = foldl bar_step ([], True) tr"

definition bar_neutral :: "event \<Rightarrow> bool" where
  "bar_neutral e =
     (case e of
        PbarCreated t \<Rightarrow> False | PbarUpdate k \<Rightarrow> False | PbarClosed pb \<Rightarrow> False
      | NextChunk f \<Rightarrow> False | _ \<Rightarrow> True)"

text \<open>The events of \<^verbatim>\<open>delete_empty_folders\<close>, and all events.\<close>

definition reap_event :: "event \<Rightarrow> bool" where
  "reap_event e =
     (case e of
        FilesList q t \<Rightarrow> True | ListSourcesReturn p its \<Rightarrow> True | Log m \<Rightarrow> True
      | DeleteFolder f \<Rightarrow> True | Sleep d \<Rightarrow> True | _ \<Rightarrow> False)"

definition any_event :: "event \<Rightarrow> bool" where
  "any_event e = True"

section \<open>Example worlds\<close>

definition file_item :: "string \<Rightarrow> string \<Rightarrow> string option \<Rightarrow> int \<Rightarrow> item" where
  "file_item i n h s =
     \<lparr>item_id = i, item_name = n, md5Checksum = h, item_size = Some s,
      mimeType = ''application/octet-stream'', resourceKey = None\<rparr>"

definition folder_item :: "string \<Rightarrow> string \<Rightarrow> item" where
  "folder_item i n =
     \<lparr>item_id = i, item_name = n, md5Checksum = None, item_size = None,
      mimeType = folder_mime, resourceKey = None\<rparr>"

definition remote_node :: "item \<Rightarrow> string list \<Rightarrow> string list \<Rightarrow> node" where
  "remote_node it ps cs = \<lparr>node_item = it, parents = ps, trashed = False, content = cs\<rparr>"

text \<open>A world with the given remote store and fault schedules, an empty destination
  directory \<^verbatim>\<open>dst\<close> and an empty trace.\<close>

definition world_of :: "node list \<Rightarrow> fault list \<Rightarrow> bool list \<Rightarrow> world" where
  "world_of ns rf lf =
     \<lparr>nodes = ns, local_files = Map.empty, local_dirs = [[''dst'']],
      remote_faults = rf, local_faults = lf, trace = []\<rparr>"

text \<open>The scenario of the specification: the root folder \<^verbatim>\<open>r\<close> holds the file
  \<^verbatim>\<open>A.bin\<close> (5 bytes) and the folder \<^verbatim>\<open>B\<close>, which holds the file \<^verbatim>\<open>C.bin\<close> (3 bytes).\<close>

definition store_abc :: "node list" where
  "store_abc =
     [remote_node (folder_item ''r'' ''Root'') [] [],
      remote_node (file_item ''a'' ''A.bin'' (Some ''h1'') 5) [''r''] [''hello''],
      remote_node (folder_item ''b'' ''B'') [''r''] [],
      remote_node (file_item ''c'' ''C.bin'' (Some ''h2'') 3) [''b''] [''abc'']]"

definition job_abc :: job_input where
  "job_abc = \<lparr>in_folder_id = ''r'', in_resource_key = [], in_destinations = [[''dst'']],
              in_confirmation = ''Yes''\<rparr>"

text \<open>A stand-in for MD5 in the examples: \<^verbatim>\<open>h1\<close> is the digest of \<^verbatim>\<open>hello\<close>,
  \<^verbatim>\<open>h2\<close> the digest of \<^verbatim>\<open>abc\<close>.\<close>

definition toy_md5 :: "string \<Rightarrow> string" where
  "toy_md5 data = (if data = ''hello'' then ''h1'' else if data = ''abc'' then ''h2'' else ''h0'')"

text \<open>A root folder with two files.\<close>

definition store_two :: "node list" where
  "store_two =
     [remote_node (folder_item ''r'' ''Root'') [] [],
      remote_node (file_item ''a'' ''A.bin'' (Some ''h1'') 5) [''r''] [''hello''],
      remote_node (file_item ''a2'' ''A2.bin'' (Some ''h2'') 3) [''r''] [''abc'']]"

text \<open>A root folder with one file of 8 bytes that arrives in two chunks.\<close>

definition store_chunked :: "node list" where
  "store_chunked =
     [remote_node (folder_item ''r'' ''Root'') [] [],
      remote_node (file_item ''a'' ''A.bin'' (Some ''h1'') 8) [''r''] [''hello'', ''abc'']]"

text \<open>A root folder whose only child is an empty folder.\<close>

definition store_empty_folder :: "node list" where
  "store_empty_folder =
     [remote_node (folder_item ''r'' ''Root'') [] [],
      remote_node (folder_item ''b'' ''B'') [''r''] []]"

text \<open>A root folder without children.\<close>

definition store_root_only :: "node list" where
  "store_root_only = [remote_node (folder_item ''r'' ''Root'') [] []]"

section \<open>Properties of the retry decorator\<close>





section \<open>Rules for the loops\<close>

text \<open>An invariant \<open>I\<close> of the page loop and a property \<open>Q\<close> of its result: \<open>Q\<close> holds
  when every way a round can end the loop gives \<open>Q\<close> and every round that goes on keeps
  \<open>I\<close>.\<close>

lemma list_loop_rule:
  assumes run: "list_loop q rk tok items w = (r, w1)"
    and init: "I tok items w"
    and fails: "\<And>tok items w e w2.
                  I tok items w \<Longrightarrow> files_list_execute q tok w = (Inl e, w2) \<Longrightarrow> Q (Inl e) w2"
    and last: "\<And>tok items w new w2.
                  I tok items w \<Longrightarrow> files_list_execute q tok w = (Inr (new, None), w2) \<Longrightarrow>
                  Q (Inr (items @ map (\<lambda>it. it\<lparr>resourceKey := rk\<rparr>) new)) w2"
    and more: "\<And>tok items w new t w2.
                  I tok items w \<Longrightarrow> files_list_execute q tok w = (Inr (new, Some t), w2) \<Longrightarrow>
                  I (Some t) (items @ map (\<lambda>it. it\<lparr>resourceKey := rk\<rparr>) new) w2"
  shows "Q r w1"
  using assms
proof (induction q rk tok items w rule: list_loop.induct)
  case (1 q rk tok items w)
  note run = "1.prems"(1) and init = "1.prems"(2) and fails = "1.prems"(3)
    and last = "1.prems"(4) and more = "1.prems"(5)
  obtain a w2 where f: "files_list_execute q tok w = (a, w2)"
    by (cases "files_list_execute q tok w")
  show ?case
  proof (cases a)
    case (Inl e)
    from f Inl have "files_list_execute q tok w = (Inl e, w2)" by simp
    from fails [OF init this] have "Q (Inl e) w2" .
    moreover from f Inl run have "r = Inl e" and "w1 = w2"
      by (simp_all add: list_loop.simps [of q rk tok items w])
    ultimately show ?thesis by simp
  next
    case (Inr p)
    obtain new nt where p: "p = (new, nt)" by (cases p)
    show ?thesis
    proof (cases nt)
      case None
      from f Inr p None have "files_list_execute q tok w = (Inr (new, None), w2)" by simp
      from last [OF init this]
      have "Q (Inr (items @ map (\<lambda>it. it\<lparr>resourceKey := rk\<rparr>) new)) w2" .
      moreover from f Inr p None run
      have "r = Inr (items @ map (\<lambda>it. it\<lparr>resourceKey := rk\<rparr>) new)" and "w1 = w2"
        by (simp_all add: list_loop.simps [of q rk tok items w])
      ultimately show ?thesis by simp
    next
      case (Some t)
      from f Inr p Some have f': "files_list_execute q tok w = (Inr (new, Some t), w2)" by simp
      with run
      have "list_loop q rk (Some t) (items @ map (\<lambda>it. it\<lparr>resourceKey := rk\<rparr>) new) w2 = (r, w1)"
        by (simp add: list_loop.simps [of q rk tok items w])
      moreover from more [OF init f']
      have "I (Some t) (items @ map (\<lambda>it. it\<lparr>resourceKey := rk\<rparr>) new) w2" .
      ultimately show ?thesis
        using "1.IH" [OF f [symmetric] Inr p [symmetric] refl Some] fails last more by blast
    qed
  qed
qed

text \<open>The same for the chunk loop.\<close>

lemma chunk_loop_rule:
  assumes run: "chunk_loop dl pb w = (r, dl1, pb1, w1)"
    and init: "I dl pb w"
    and fails: "\<And>dl pb w e dl2 w2.
                  I dl pb w \<Longrightarrow> next_chunk dl w = (Inl e, dl2, w2) \<Longrightarrow> Q (Inl e) dl2 pb w2"
    and last: "\<And>dl pb w p dl2 w2.
                  I dl pb w \<Longrightarrow> next_chunk dl w = (Inr (p, True), dl2, w2) \<Longrightarrow>
                  Q (Inr ()) dl2 (pbar_update p pb) (emit (PbarUpdate p) w2)"
    and more: "\<And>dl pb w p dl2 w2.
                  I dl pb w \<Longrightarrow> next_chunk dl w = (Inr (p, False), dl2, w2) \<Longrightarrow>
                  I dl2 (pbar_update p pb) (emit (PbarUpdate p) w2)"
  shows "Q r dl1 pb1 w1"
  using run init
proof (induction dl pb w rule: chunk_loop.induct)
  case (1 dl pb w)
  note run = "1.prems"(1) and init = "1.prems"(2)
  obtain a dl2 w2 where n: "next_chunk dl w = (a, dl2, w2)"
    by (cases "next_chunk dl w") auto
  show ?case
  proof (cases a)
    case (Inl e)
    from n Inl have "next_chunk dl w = (Inl e, dl2, w2)" by simp
    from fails [OF init this] have "Q (Inl e) dl2 pb w2" .
    moreover from n Inl run have "r = Inl e" and "dl1 = dl2" and "pb1 = pb" and "w1 = w2"
      by (simp_all add: chunk_loop.simps [of dl pb w])
    ultimately show ?thesis by simp
  next
    case (Inr p)
    obtain progress finished where p: "p = (progress, finished)" by (cases p)
    show ?thesis
    proof (cases finished)
      case True
      from n Inr p True have "next_chunk dl w = (Inr (progress, True), dl2, w2)" by simp
      from last [OF init this]
      have "Q (Inr ()) dl2 (pbar_update progress pb) (emit (PbarUpdate progress) w2)" .
      moreover from n Inr p True run
      have "r = Inr ()" and "dl1 = dl2" and "pb1 = pbar_update progress pb"
        and "w1 = emit (PbarUpdate progress) w2"
        by (simp_all add: chunk_loop.simps [of dl pb w])
      ultimately show ?thesis by simp
    next
      case False
      from n Inr p False have n': "next_chunk dl w = (Inr (progress, False), dl2, w2)" by simp
      with run
      have "chunk_loop dl2 (pbar_update progress pb) (emit (PbarUpdate progress) w2) = (r, dl1, pb1, w1)"
        by (simp add: chunk_loop.simps [of dl pb w])
      moreover from more [OF init n']
      have "I dl2 (pbar_update progress pb) (emit (PbarUpdate progress) w2)" .
      ultimately show ?thesis
        using "1.IH" [OF n [symmetric] Inr p [symmetric] refl False] by simp
    qed
  qed
qed

section \<open>The events of each function\<close>

lemma extends_refl [simp]: "extends P w w"
  by (simp add: extends_def)

lemma extends_trans: "extends P w w1 \<Longrightarrow> extends P w1 w2 \<Longrightarrow> extends P w w2"
  by (auto simp: extends_def)

lemma extends_emit: "P e \<Longrightarrow> extends P w w1 \<Longrightarrow> extends P w (emit e w1)"
  by (auto simp: extends_def emit_def)

lemma extends_emit0: "P e \<Longrightarrow> extends P w (emit e w)"
  by (auto simp: extends_def emit_def)

lemma extends_from_emit: "P e \<Longrightarrow> extends P (emit e w) w1 \<Longrightarrow> extends P w w1"
  by (auto simp: extends_def emit_def)

lemma extends_mono: "extends P w w1 \<Longrightarrow> (\<And>e. P e \<Longrightarrow> Q e) \<Longrightarrow> extends Q w w1"
  by (auto simp: extends_def list_all_iff)

lemma extends_update [simp]:
  "extends P w (w1\<lparr>nodes := ns\<rparr>) = extends P w w1"
  "extends P w (w1\<lparr>local_files := fs\<rparr>) = extends P w w1"
  "extends P w (w1\<lparr>local_dirs := ds\<rparr>) = extends P w w1"
  "extends P w (w1\<lparr>remote_faults := rf\<rparr>) = extends P w w1"
  "extends P w (w1\<lparr>local_faults := lf\<rparr>) = extends P w w1"
  by (simp_all add: extends_def)

lemma extends_concat_map:
  assumes "extends P w w1" and "\<And>e. P e \<Longrightarrow> f e = []"
  shows "concat (map f (trace w1)) = concat (map f (trace w))"
proof -
  from assms(1) obtain new where t: "trace w1 = trace w @ new" and p: "list_all P new"
    by (auto simp: extends_def)
  from p assms(2) have "concat (map f new) = []"
    by (induction new) simp_all
  with t show ?thesis by simp
qed

lemma chunk_is_transfer: "chunk_event e \<Longrightarrow> transfer_event e"
  by (cases e) (simp_all add: chunk_event_def transfer_event_def)

lemma transfer_is_file: "transfer_event e \<Longrightarrow> file_event e"
  by (cases e) (simp_all add: file_event_def)

lemma pop_remote_fault_extends: "pop_remote_fault w = (f, w1) \<Longrightarrow> extends P w w1"
  by (auto simp: pop_remote_fault_def split: list.splits)

lemma pop_local_fault_extends: "pop_local_fault w = (f, w1) \<Longrightarrow> extends P w w1"
  by (auto simp: pop_local_fault_def split: list.splits)

lemma files_list_execute_extends:
  "files_list_execute q tok w = (r, w1) \<Longrightarrow> P (FilesList q tok) \<Longrightarrow> extends P w w1"
  by (auto simp: files_list_execute_def Let_def split: prod.splits fault.splits
           dest!: pop_remote_fault_extends [where P = P] intro: extends_from_emit)

lemma list_loop_extends:
  assumes "list_loop q rk tok items w = (r, w1)" and P: "\<And>t. P (FilesList q t)"
  shows "extends P w w1"
  by (rule list_loop_rule [OF assms(1), where I = "\<lambda>tok items w'. extends P w w'"
                                        and Q = "\<lambda>r w'. extends P w w'"])
     (auto elim!: extends_trans intro: files_list_execute_extends P)

lemma list_sources_extends:
  "list_sources pid rk w = (r, w1) \<Longrightarrow> extends listing_event w w1"
  unfolding list_sources_def
  by (auto split: prod.splits sum.splits exn.splits
           dest!: list_loop_extends [where P = listing_event]
           intro!: extends_emit simp: listing_event_def)

lemma local_mkdir_extends: "local_mkdir p w = (r, w1) \<Longrightarrow> P (Mkdir p) \<Longrightarrow> extends P w w1"
  by (auto simp: local_mkdir_def split: prod.splits bool.splits if_splits
           dest!: pop_local_fault_extends [where P = P] intro: extends_from_emit)

lemma local_read_extends: "local_read p w = (r, w1) \<Longrightarrow> P (ReadFile p) \<Longrightarrow> extends P w w1"
  by (auto simp: local_read_def split: prod.splits bool.splits if_splits option.splits
           dest!: pop_local_fault_extends [where P = P] intro: extends_from_emit)

lemma local_write_extends: "local_write p d w = (r, w1) \<Longrightarrow> P (WriteFile p d) \<Longrightarrow> extends P w w1"
  by (auto simp: local_write_def split: prod.splits bool.splits if_splits option.splits
           dest!: pop_local_fault_extends [where P = P] intro: extends_from_emit)

lemma files_delete_execute_extends:
  "files_delete_execute site fid w = (r, w1) \<Longrightarrow> P (site fid) \<Longrightarrow> extends P w w1"
  by (auto simp: files_delete_execute_def split: prod.splits fault.splits if_splits
           dest!: pop_remote_fault_extends [where P = P] intro: extends_from_emit)

lemma next_chunk_extends:
  "next_chunk dl w = (r, dl1, w1) \<Longrightarrow> P (NextChunk (dl_file dl)) \<Longrightarrow> extends P w w1"
  by (auto simp: next_chunk_def Let_def split: prod.splits fault.splits if_splits option.splits
           dest!: pop_remote_fault_extends [where P = P] intro: extends_from_emit)

lemma chunk_loop_extends:
  assumes "chunk_loop dl pb w = (r, dl1, pb1, w1)"
    and P: "\<And>f. P (NextChunk f)" "\<And>k. P (PbarUpdate k)"
  shows "extends P w w1"
  by (rule chunk_loop_rule [OF assms(1), where I = "\<lambda>dl pb w'. extends P w w'"
                                            and Q = "\<lambda>r dl pb w'. extends P w w'"])
     (auto elim!: extends_trans intro!: extends_emit intro: next_chunk_extends P)

lemma retry_download_extends:
  "retry_download rs dl pb w = (r, dl1, pb1, w1) \<Longrightarrow> extends chunk_event w w1"
proof (induction rs arbitrary: dl pb w)
  case Nil
  then show ?case
    by (auto intro!: extends_emit0 simp: chunk_event_def)
next
  case (Cons i rs)
  obtain a dl2 pb2 w2 where c: "chunk_loop dl pb w = (a, dl2, pb2, w2)"
    by (cases "chunk_loop dl pb w") auto
  then have e: "extends chunk_event w w2"
    by (rule chunk_loop_extends) (simp_all add: chunk_event_def)
  have e2: "extends chunk_event w (emit (Sleep (2 ^ i)) (emit (Log (Rate_limit_retrying (2 ^ i))) w2))"
    using e by (intro extends_emit) (simp_all add: chunk_event_def)
  from Cons.prems c e show ?case
    by (auto split: sum.splits exn.splits if_splits
             dest!: Cons.IH intro: extends_trans [OF e2])
qed

lemma download_file_fetch_extends:
  "download_file_fetch it p pb n w = (r, pb1, w1) \<Longrightarrow> extends transfer_event w w1"
  unfolding download_file_fetch_def
  by (auto split: sum.splits prod.splits exn.splits
           dest!: extends_mono [OF retry_download_extends chunk_is_transfer]
                  local_write_extends [where P = transfer_event]
                  files_delete_execute_extends [where P = transfer_event]
           intro!: extends_emit
           elim!: extends_from_emit [rotated] extends_trans [rotated]
           simp: transfer_event_def)

lemma download_file_try_extends:
  "download_file_try md5 it p pb n w = (r, pb1, w1) \<Longrightarrow> extends transfer_event w w1"
  unfolding download_file_try_def Let_def
  by (auto split: sum.splits prod.splits if_splits
           dest!: download_file_fetch_extends local_mkdir_extends [where P = transfer_event]
                  local_read_extends [where P = transfer_event]
           intro!: extends_emit
           elim: extends_trans
           simp: transfer_event_def)

lemma download_file_extends:
  "download_file md5 it p pb n w = (r, pb1, w1) \<Longrightarrow> extends file_event w w1"
  unfolding download_file_def
  by (auto split: sum.splits prod.splits exn.splits
           dest!: extends_mono [OF download_file_try_extends transfer_is_file]
           intro!: extends_emit
           elim!: extends_from_emit [rotated]
           simp: file_event_def transfer_event_def)

lemma download_files_loop_extends:
  "download_files_loop md5 items p pb w = (r, pb1, w1) \<Longrightarrow> extends file_event w w1"
proof (induction items arbitrary: pb w)
  case Nil
  then show ?case by simp
next
  case (Cons it items)
  then show ?case
    by (auto split: if_splits sum.splits prod.splits
             dest!: download_file_extends elim: extends_trans)
qed

lemma total_size_extends:
  "get_total_size d pid w = (r, w1) \<Longrightarrow> extends listing_event w w1"
  "total_size_loop d items acc w = (r', w1') \<Longrightarrow> extends listing_event w w1'"
proof (induction d pid w and d items acc w arbitrary: r w1 and r' w1'
       rule: get_total_size_total_size_loop.induct)
  case (1 parent_id w)
  then show ?case by simp
next
  case (2 d parent_id w)
  then show ?case
    by (auto split: sum.splits prod.splits dest!: list_sources_extends elim: extends_trans)
next
  case (3 d total_size w)
  then show ?case by simp
next
  case (4 d it rest total_size w)
  then show ?case
    by (auto split: sum.splits prod.splits if_splits elim: extends_trans)
qed

lemma get_destination_extends:
  "get_destination k inputs w = (r, w1) \<Longrightarrow> extends listing_event w w1"
proof (induction k inputs w rule: get_destination.induct)
  case (1 inputs w)
  then show ?case by simp
next
  case (2 k w)
  then show ?case by simp
next
  case (3 k p rest w)
  have "extends listing_event w (emit (Log Invalid_path) w)"
    by (rule extends_emit0) (simp add: listing_event_def)
  with 3 show ?case
    by (auto split: if_splits elim: extends_trans)
qed

lemma listing_is_reap: "listing_event e \<Longrightarrow> reap_event e"
  by (cases e) (simp_all add: listing_event_def reap_event_def)

lemma delete_retry_extends:
  "delete_retry rs fid w = (r, w1) \<Longrightarrow> extends reap_event w w1"
proof (induction rs arbitrary: w)
  case Nil
  then show ?case
    by (auto intro!: extends_emit0 simp: reap_event_def)
next
  case (Cons i rs)
  obtain a w2 where d: "files_delete_execute DeleteFolder fid w = (a, w2)"
    by (cases "files_delete_execute DeleteFolder fid w")
  then have e: "extends reap_event w w2"
    by (rule files_delete_execute_extends) (simp add: reap_event_def)
  have e2: "extends reap_event w (emit (Sleep (2 ^ i)) (emit (Log (Rate_limit_retrying (2 ^ i))) w2))"
    using e by (intro extends_emit) (simp_all add: reap_event_def)
  have e3: "extends reap_event w (emit (Log Folder_deleted) w2)"
    using e by (intro extends_emit) (simp_all add: reap_event_def)
  from Cons.prems d e e3 show ?case
    by (auto split: sum.splits exn.splits if_splits
             dest!: Cons.IH intro: extends_trans [OF e2])
qed

lemma delete_empty_folders_extends:
  "delete_empty_folders d fid n w = (r, w1) \<Longrightarrow> extends reap_event w w1"
  "delete_folders_loop d items w = (r', w1') \<Longrightarrow> extends reap_event w w1'"
proof (induction d fid n w and d items w arbitrary: r w1 and r' w1'
       rule: delete_empty_folders_delete_folders_loop.induct)
  case (1 folder_id max_retry w)
  then show ?case by simp
next
  case (2 d folder_id max_retry w)
  then show ?case
    by (auto split: sum.splits prod.splits if_splits
             dest!: extends_mono [OF list_sources_extends listing_is_reap] delete_retry_extends
             elim: extends_trans)
next
  case (3 d w)
  then show ?case by simp
next
  case (4 d it rest w)
  then show ?case
    by (auto split: sum.splits prod.splits if_splits elim: extends_trans)
qed

lemma grows: "extends P w w1 \<Longrightarrow> extends any_event w w1"
  by (erule extends_mono) (simp add: any_event_def)

lemma download_folders_loop_grows:
  assumes H: "\<And>src dest w r w1. download_files d md5 src dest False w = (r, w1) \<Longrightarrow>
                extends any_event w w1"
  shows "download_folders_loop d md5 items dest w = (r, w1) \<Longrightarrow> extends any_event w w1"
proof (induction items arbitrary: w)
  case Nil
  then show ?case by simp
next
  case (Cons it items)
  show ?case
  proof (cases "is_folder it")
    case False
    with Cons show ?thesis by simp
  next
    case True
    obtain a w2 where c: "download_files d md5 \<lparr>src_id = item_id it, src_name = item_name it\<rparr> dest False w = (a, w2)"
      by (cases "download_files d md5 \<lparr>src_id = item_id it, src_name = item_name it\<rparr> dest False w")
    from H [OF c] have g2: "extends any_event w w2" .
    from Cons.prems(1) True c g2 Cons.IH [of w2] show ?thesis
      by (cases a) (auto elim: extends_trans)
  qed
qed

lemma download_files_grows:
  "download_files d md5 src dest_folder is_root w = (r, w1) \<Longrightarrow> extends any_event w w1"
proof (induction d arbitrary: src dest_folder is_root w r w1)
  case 0
  then show ?case by simp
next
  case (Suc d)
  define dest where "dest = (if \<not> is_root then joinpath dest_folder (src_name src) else dest_folder)"
  obtain a1 w2 where m: "local_mkdir dest w = (a1, w2)"
    by (cases "local_mkdir dest w")
  have g2: "extends any_event w w2"
    using m by (rule local_mkdir_extends) (simp add: any_event_def)
  obtain a2 w3 where l: "list_sources (Some (src_id src)) None w2 = (a2, w3)"
    by (cases "list_sources (Some (src_id src)) None w2")
  from extends_trans [OF g2 grows [OF list_sources_extends [OF l]]]
  have g3: "extends any_event w w3" .
  obtain a3 w4 where t: "get_total_size d (src_id src) w3 = (a3, w4)"
    by (cases "get_total_size d (src_id src) w3")
  from extends_trans [OF g3 grows [OF total_size_extends(1) [OF t]]]
  have g4: "extends any_event w w4" .
  show ?case
  proof (cases a1)
    case (Inl e)
    with Suc.prems(1) m g2 show ?thesis by (auto simp: dest_def [symmetric])
  next
    case u1: (Inr u)
    show ?thesis
    proof (cases a2)
      case (Inl e)
      with Suc.prems(1) m u1 l g3 show ?thesis by (auto simp: dest_def [symmetric])
    next
      case items: (Inr items)
      show ?thesis
      proof (cases a3)
        case (Inl e)
        with Suc.prems(1) m u1 l items t g4 show ?thesis by (auto simp: dest_def [symmetric])
      next
        case total: (Inr total_size)
        let ?pb = "\<lparr>pb_total = total_size, pb_n = 0\<rparr>"
        have g4': "extends any_event w (emit (PbarCreated total_size) w4)"
          using g4 by (intro extends_emit) (simp_all add: any_event_def)
        obtain a4 pb1 w5 where f: "download_files_loop md5 items dest ?pb
              (emit (PbarCreated total_size) w4) = (a4, pb1, w5)"
          by (cases "download_files_loop md5 items dest ?pb (emit (PbarCreated total_size) w4)") auto
        from extends_trans [OF g4' grows [OF download_files_loop_extends [OF f]]]
        have g5: "extends any_event w w5" .
        then have g5': "extends any_event w (emit (PbarClosed pb1) w5)"
          by (intro extends_emit) (simp_all add: any_event_def)
        obtain a5 w6 where fl: "download_folders_loop d md5 items dest w5 = (a5, w6)"
          by (cases "download_folders_loop d md5 items dest w5")
        from extends_trans [OF g5 download_folders_loop_grows [OF Suc.IH fl]]
        have g6: "extends any_event w w6" by simp
        then have g6': "extends any_event w (emit (PbarClosed pb1) w6)"
          by (intro extends_emit) (simp_all add: any_event_def)
        show ?thesis
        proof (cases a4)
          case (Inl e)
          with Suc.prems(1) m u1 l items t total f g5' show ?thesis
            by (auto simp: dest_def [symmetric])
        next
          case u4: (Inr u')
          show ?thesis
          proof (cases a5)
            case (Inl e)
            with Suc.prems(1) m u1 l items t total f u4 fl g6' show ?thesis
              by (auto simp: dest_def [symmetric])
          next
            case (Inr u'')
            with Suc.prems(1) m u1 l items t total f u4 fl
            have "delete_empty_folders d (src_id src) 5 (emit (PbarClosed pb1) w6) = (r, w1)"
              by (simp add: dest_def [symmetric])
            from extends_trans [OF g6' grows [OF delete_empty_folders_extends(1) [OF this]]]
            show ?thesis .
          qed
        qed
      qed
    qed
  qed
qed

section \<open>Calls that meet no fault\<close>

lemma files_list_execute_no_fault:
  assumes "remote_faults w = []" and "files_list_execute q tok w = (r, w1)"
  shows "r = Inr (take page_size (drop (offset tok) (matching q (nodes w))),
                  if offset tok + page_size < length (matching q (nodes w))
                  then Some (offset tok + page_size) else None)"
    and "w1 = emit (FilesList q tok) w"
  using assms
  by (auto simp: files_list_execute_def pop_remote_fault_def emit_def Let_def offset_def
           split: option.splits)

lemma files_list_execute_same:
  assumes "files_list_execute q tok w = (r, w1)"
  shows "same_store w w1 \<and> same_local w w1"
  using assms
  by (auto simp: files_list_execute_def pop_remote_fault_def emit_def Let_def same_store_def same_local_def
           split: list.splits fault.splits)

lemma list_loop_same:
  assumes "list_loop q rk tok items w = (r, w1)"
  shows "same_store w w1 \<and> same_local w w1"
  by (rule list_loop_rule [OF assms, where I = "\<lambda>tok items w'. same_store w w' \<and> same_local w w'"
                                        and Q = "\<lambda>r w'. same_store w w' \<and> same_local w w'"])
     (auto simp: same_store_def same_local_def dest!: files_list_execute_same)

lemma list_loop_no_fault:
  assumes nf: "remote_faults w = []" and run: "list_loop q rk tok items w = (r, w1)"
  shows "r = Inr (items @ with_key rk (drop (offset tok) (matching q (nodes w)))) \<and> remote_faults w1 = []"
proof -
  let ?ms = "matching q (nodes w)"
  let ?all = "items @ with_key rk (drop (offset tok) ?ms)"
  let ?I = "\<lambda>tok' items' w'. remote_faults w' = [] \<and> nodes w' = nodes w
              \<and> items' @ with_key rk (drop (offset tok') ?ms) = ?all"
  let ?Q = "\<lambda>r w'. r = Inr ?all \<and> remote_faults w' = []"
  show ?thesis
  proof (rule list_loop_rule [OF run, where I = ?I and Q = ?Q], goal_cases)
    case 1
    show ?case using nf by simp
  next
    case (2 tok items w e w2)
    then show ?case
      using files_list_execute_no_fault(1) [of w q tok "Inl e" w2] by simp
  next
    case (3 tok' items' w' new w2)
    then have f: "files_list_execute q tok' w' = (Inr (new, None), w2)" and nf': "remote_faults w' = []"
      and n: "nodes w' = nodes w" and i: "items' @ with_key rk (drop (offset tok') ?ms) = ?all"
      by simp_all
    from files_list_execute_no_fault [OF nf' f] n
    have new: "new = take page_size (drop (offset tok') ?ms)"
      and le: "\<not> offset tok' + page_size < length ?ms" and w2: "w2 = emit (FilesList q tok') w'"
      by (simp_all split: if_splits)
    from le have "take page_size (drop (offset tok') ?ms) = drop (offset tok') ?ms"
      by simp
    with new i w2 nf' show ?case
      by (simp add: with_key_def emit_def)
  next
    case (4 tok' items' w' new t w2)
    then have f: "files_list_execute q tok' w' = (Inr (new, Some t), w2)" and nf': "remote_faults w' = []"
      and n: "nodes w' = nodes w" and i: "items' @ with_key rk (drop (offset tok') ?ms) = ?all"
      by simp_all
    from files_list_execute_no_fault [OF nf' f] n
    have new: "new = take page_size (drop (offset tok') ?ms)"
      and t: "t = offset tok' + page_size" and w2: "w2 = emit (FilesList q tok') w'"
      by (simp_all split: if_splits)
    have "take page_size (drop (offset tok') ?ms) @ drop (offset tok' + page_size) ?ms
            = drop (offset tok') ?ms"
      by (metis add.commute append_take_drop_id drop_drop)
    then have "with_key rk new @ with_key rk (drop t ?ms) = with_key rk (drop (offset tok') ?ms)"
      unfolding new t with_key_def by (metis map_append)
    with i w2 nf' n show ?case
      by (simp add: with_key_def emit_def offset_def)
  qed
qed

lemma list_sources_no_fault:
  assumes "remote_faults w = []" and "list_sources pid rk w = (r, w1)"
  shows "r = Inr (with_key rk (matching (list_query pid) (nodes w)))"
    and "remote_faults w1 = []" and "same_store w w1" and "same_local w w1"
proof -
  obtain a w2 where l: "list_loop (list_query pid) rk None [] w = (a, w2)"
    by (cases "list_loop (list_query pid) rk None [] w")
  from list_loop_no_fault [OF assms(1) l] list_loop_same [OF l] assms(2) l
  show "r = Inr (with_key rk (matching (list_query pid) (nodes w)))"
    and "remote_faults w1 = []" and "same_store w w1" and "same_local w w1"
    by (auto simp: list_sources_def offset_def emit_def same_store_def same_local_def)
qed

lemma matching_all: "matching all_query ns = map node_item (filter (\<lambda>n. \<not> trashed n) ns)"
proof -
  have "matches_query all_query = (\<lambda>n. \<not> trashed n)"
    by (rule ext) (simp add: matches_query_def)
  then show ?thesis
    by (simp add: matching_def)
qed

lemma sleeps_append [simp]: "sleeps (tr @ tr') = sleeps tr @ sleeps tr'"
  by (simp add: sleeps_def)

lemma folder_deletes_append [simp]: "folder_deletes (tr @ tr') = folder_deletes tr @ folder_deletes tr'"
  by (simp add: folder_deletes_def)

lemma file_deletes_append [simp]: "file_deletes (tr @ tr') = file_deletes tr @ file_deletes tr'"
  by (simp add: file_deletes_def)

lemma has_node_removed [simp]:
  "\<not> has_node fid (filter (\<lambda>n. item_id (node_item n) \<noteq> fid) ns)"
  by (simp add: has_node_def list_ex_iff)

lemma delete_retry_no_fault:
  assumes "remote_faults w = []" and "has_node fid (nodes w)"
  shows "delete_retry (i # rs) fid w =
           (Inr (), emit (Log Folder_deleted)
                      ((emit (DeleteFolder fid) w)
                         \<lparr>nodes := filter (\<lambda>n. item_id (node_item n) \<noteq> fid) (nodes w)\<rparr>))"
  using assms
  by (simp add: files_delete_execute_def pop_remote_fault_def emit_def)

lemma folder_deletes_listing:
  "extends listing_event w w1 \<Longrightarrow> folder_deletes (trace w1) = folder_deletes (trace w)"
  using extends_concat_map [of listing_event w w1 "\<lambda>e. case e of DeleteFolder f \<Rightarrow> [f] | _ \<Rightarrow> []"]
  by (auto simp: folder_deletes_def listing_event_def split: event.splits)

section \<open>Folders are deleted only after an empty listing\<close>

lemma guard_run_snoc: "guard_run (tr @ [e]) = guard_step (guard_run tr) e"
  by (simp add: guard_run_def)

lemma guarded_snoc:
  "not_folder_delete e \<Longrightarrow> deletes_guarded (tr @ [e]) = deletes_guarded tr"
  by (cases e) (simp_all add: deletes_guarded_def guard_run_snoc guard_step_def not_folder_delete_def)

lemma guarded_append:
  "list_all not_folder_delete new \<Longrightarrow> deletes_guarded (tr @ new) = deletes_guarded tr"
proof (induction new rule: rev_induct)
  case Nil
  show ?case by simp
next
  case (snoc e new)
  then show ?case
    using guarded_snoc [of e "tr @ new"] by simp
qed

lemma extends_guarded:
  "extends P w w1 \<Longrightarrow> (\<And>e. P e \<Longrightarrow> not_folder_delete e) \<Longrightarrow>
   deletes_guarded (trace w1) = deletes_guarded (trace w)"
proof -
  assume "extends P w w1" and imp: "\<And>e. P e \<Longrightarrow> not_folder_delete e"
  then obtain new where t: "trace w1 = trace w @ new" and "list_all P new"
    by (auto simp: extends_def)
  then have "list_all not_folder_delete new"
    using imp by (simp add: list_all_iff)
  from guarded_append [OF this] t show ?thesis
    by simp
qed

lemma listing_not_delete: "listing_event e \<Longrightarrow> not_folder_delete e"
  by (cases e) (simp_all add: listing_event_def not_folder_delete_def)

lemma transfer_not_delete: "transfer_event e \<Longrightarrow> not_folder_delete e"
  by (cases e) (simp_all add: transfer_event_def not_folder_delete_def)

lemma file_not_delete: "file_event e \<Longrightarrow> not_folder_delete e"
  by (cases e) (simp_all add: file_event_def transfer_event_def not_folder_delete_def)

lemma emit_guarded [simp]:
  "not_folder_delete e \<Longrightarrow> deletes_guarded (trace (emit e w)) = deletes_guarded (trace w)"
  by (simp add: emit_def guarded_snoc)

lemma list_sources_last:
  "list_sources pid rk w = (Inr items, w1) \<Longrightarrow>
   \<exists>w0. extends listing_event w w0 \<and> w1 = emit (ListSourcesReturn pid items) w0"
proof -
  assume a: "list_sources pid rk w = (Inr items, w1)"
  obtain x w2 where l: "list_loop (list_query pid) rk None [] w = (x, w2)"
    by (cases "list_loop (list_query pid) rk None [] w")
  then have e: "extends listing_event w w2"
    by (rule list_loop_extends) (simp add: listing_event_def)
  show ?thesis
  proof (cases x)
    case (Inr its)
    with a l e show ?thesis
      by (auto simp: list_sources_def)
  next
    case (Inl ex)
    have "extends listing_event w (emit (Log (An_error_occurred s)) w2)" for s
      using e by (rule extends_emit [rotated]) (simp add: listing_event_def)
    with Inl a l show ?thesis
      by (cases ex) (auto simp: list_sources_def)
  qed
qed

lemma list_sources_permitted:
  assumes "list_sources pid rk w = (Inr items, w1)"
  shows "deletes_guarded (trace w1) = deletes_guarded (trace w)"
    and "permitted (trace w1) = (if items = [] then pid else None)"
proof -
  from list_sources_last [OF assms] obtain w0 where
    e: "extends listing_event w w0" and w1: "w1 = emit (ListSourcesReturn pid items) w0"
    by blast
  from extends_guarded [OF e listing_not_delete]
  show "deletes_guarded (trace w1) = deletes_guarded (trace w)"
    by (simp add: w1 not_folder_delete_def)
  show "permitted (trace w1) = (if items = [] then pid else None)"
    by (simp add: w1 emit_def permitted_def guard_run_snoc guard_step_def)
qed

lemma list_sources_guarded:
  "list_sources pid rk w = (r, w1) \<Longrightarrow> deletes_guarded (trace w1) = deletes_guarded (trace w)"
  by (rule extends_guarded [OF list_sources_extends listing_not_delete])

lemma files_delete_execute_trace:
  "files_delete_execute site fid w = (r, w1) \<Longrightarrow> trace w1 = trace w @ [site fid]"
  by (auto simp: files_delete_execute_def pop_remote_fault_def emit_def
           split: prod.splits fault.splits if_splits list.splits)

lemma delete_retry_guarded:
  "deletes_guarded (trace w) \<Longrightarrow> permitted (trace w) = Some fid \<Longrightarrow>
   delete_retry rs fid w = (r, w1) \<Longrightarrow> deletes_guarded (trace w1)"
proof (induction rs arbitrary: w)
  case Nil
  then show ?case
    by (auto simp: not_folder_delete_def)
next
  case (Cons i rs)
  obtain a w2 where d: "files_delete_execute DeleteFolder fid w = (a, w2)"
    by (cases "files_delete_execute DeleteFolder fid w")
  from files_delete_execute_trace [OF d] Cons.prems(1,2)
  have g: "deletes_guarded (trace w2)" and p: "permitted (trace w2) = Some fid"
    by (simp_all add: deletes_guarded_def permitted_def guard_run_snoc guard_step_def)
  let ?w3 = "emit (Sleep (2 ^ i)) (emit (Log (Rate_limit_retrying (2 ^ i))) w2)"
  have g3: "deletes_guarded (trace ?w3)"
    using g by (simp add: not_folder_delete_def)
  have p3: "permitted (trace ?w3) = Some fid"
    using p by (simp add: emit_def permitted_def guard_run_def guard_step_def)
  from Cons.prems(3) d g show ?case
    by (auto split: sum.splits exn.splits if_splits
             simp: not_folder_delete_def
             dest: Cons.IH [OF g3 p3])
qed

lemma delete_empty_folders_guarded:
  "delete_empty_folders d fid n w = (r, w1) \<Longrightarrow> deletes_guarded (trace w) \<Longrightarrow> deletes_guarded (trace w1)"
  "delete_folders_loop d items w = (r', w1') \<Longrightarrow> deletes_guarded (trace w) \<Longrightarrow> deletes_guarded (trace w1')"
proof (induction d fid n w and d items w arbitrary: r w1 and r' w1'
       rule: delete_empty_folders_delete_folders_loop.induct)
  case (1 folder_id max_retry w)
  then show ?case by simp
next
  case (2 d folder_id max_retry w)
  obtain a w2 where l: "list_sources (Some folder_id) None w = (a, w2)"
    by (cases "list_sources (Some folder_id) None w")
  have g2: "deletes_guarded (trace w2)"
    using list_sources_guarded [OF l] "2.prems"(2) by simp
  show ?case
  proof (cases a)
    case (Inl e)
    with l "2.prems"(1) g2 show ?thesis by simp
  next
    case (Inr items)
    show ?thesis
    proof (cases "items = []")
      case True
      with l Inr have "permitted (trace w2) = Some folder_id"
        using list_sources_permitted(2) [of "Some folder_id" None w items w2] by simp
      with True l Inr "2.prems"(1) g2 show ?thesis
        by (auto intro: delete_retry_guarded)
    next
      case False
      with l Inr "2.prems"(1) have "delete_folders_loop d items w2 = (r, w1)"
        by simp
      from "2.IH" [OF l [symmetric] Inr False this g2] show ?thesis .
    qed
  qed
next
  case (3 d w)
  then show ?case by simp
next
  case (4 d it rest w)
  show ?case
  proof (cases "is_folder it")
    case True
    obtain a w2 where c: "delete_empty_folders d (item_id it) 5 w = (a, w2)"
      by (cases "delete_empty_folders d (item_id it) 5 w")
    from "4.IH"(1) [OF True c "4.prems"(2)] have g2: "deletes_guarded (trace w2)" .
    show ?thesis
    proof (cases a)
      case (Inl e)
      with True c "4.prems"(1) g2 show ?thesis by simp
    next
      case (Inr u)
      with True c "4.prems"(1) have "delete_folders_loop d rest w2 = (r', w1')"
        by simp
      from "4.IH"(2) [OF True c [symmetric] Inr this g2] show ?thesis .
    qed
  next
    case False
    with "4.prems"(1) have "delete_folders_loop d rest w = (r', w1')"
      by simp
    from "4.IH"(3) [OF False this "4.prems"(2)] show ?thesis .
  qed
qed

lemma download_folders_loop_guarded:
  assumes H: "\<And>src dest w r w1. download_files d md5 src dest False w = (r, w1) \<Longrightarrow>
                deletes_guarded (trace w) \<Longrightarrow> deletes_guarded (trace w1)"
  shows "download_folders_loop d md5 items dest w = (r, w1) \<Longrightarrow>
         deletes_guarded (trace w) \<Longrightarrow> deletes_guarded (trace w1)"
proof (induction items arbitrary: w)
  case Nil
  then show ?case by simp
next
  case (Cons it items)
  show ?case
  proof (cases "is_folder it")
    case False
    with Cons show ?thesis by simp
  next
    case True
    obtain a w2 where c: "download_files d md5 \<lparr>src_id = item_id it, src_name = item_name it\<rparr> dest False w = (a, w2)"
      by (cases "download_files d md5 \<lparr>src_id = item_id it, src_name = item_name it\<rparr> dest False w")
    from H [OF c Cons.prems(2)] have g2: "deletes_guarded (trace w2)" .
    from Cons.prems(1) True c g2 Cons.IH [of w2] show ?thesis
      by (cases a) auto
  qed
qed

lemma download_files_guarded:
  "download_files d md5 src dest_folder is_root w = (r, w1) \<Longrightarrow>
   deletes_guarded (trace w) \<Longrightarrow> deletes_guarded (trace w1)"
proof (induction d arbitrary: src dest_folder is_root w r w1)
  case 0
  then show ?case by simp
next
  case (Suc d)
  define dest where "dest = (if \<not> is_root then joinpath dest_folder (src_name src) else dest_folder)"
  obtain a1 w2 where m: "local_mkdir dest w = (a1, w2)"
    by (cases "local_mkdir dest w")
  have "extends transfer_event w w2"
    using m by (rule local_mkdir_extends) (simp add: transfer_event_def)
  from extends_guarded [OF this transfer_not_delete] Suc.prems(2)
  have g2: "deletes_guarded (trace w2)" by simp
  obtain a2 w3 where l: "list_sources (Some (src_id src)) None w2 = (a2, w3)"
    by (cases "list_sources (Some (src_id src)) None w2")
  from list_sources_guarded [OF l] g2 have g3: "deletes_guarded (trace w3)" by simp
  obtain a3 w4 where t: "get_total_size d (src_id src) w3 = (a3, w4)"
    by (cases "get_total_size d (src_id src) w3")
  from extends_guarded [OF total_size_extends(1) [OF t] listing_not_delete] g3
  have g4: "deletes_guarded (trace w4)" by simp
  show ?case
  proof (cases a1)
    case (Inl e)
    with Suc.prems(1) m g2 show ?thesis by (simp add: dest_def [symmetric])
  next
    case u1: (Inr u)
    show ?thesis
    proof (cases a2)
      case (Inl e)
      with Suc.prems(1) m u1 l g3 show ?thesis by (simp add: dest_def [symmetric])
    next
      case items: (Inr items)
      show ?thesis
      proof (cases a3)
        case (Inl e)
        with Suc.prems(1) m u1 l items t g4 show ?thesis by (simp add: dest_def [symmetric])
      next
        case total: (Inr total_size)
        obtain a4 pb1 w5 where f: "download_files_loop md5 items dest \<lparr>pb_total = total_size, pb_n = 0\<rparr>
              (emit (PbarCreated total_size) w4) = (a4, pb1, w5)"
          by (cases "download_files_loop md5 items dest \<lparr>pb_total = total_size, pb_n = 0\<rparr>
              (emit (PbarCreated total_size) w4)") auto
        from extends_guarded [OF download_files_loop_extends [OF f] file_not_delete] g4
        have g5: "deletes_guarded (trace w5)" by (simp add: not_folder_delete_def)
        obtain a5 w6 where fl: "download_folders_loop d md5 items dest w5 = (a5, w6)"
          by (cases "download_folders_loop d md5 items dest w5")
        from download_folders_loop_guarded [OF Suc.IH fl g5]
        have g6: "deletes_guarded (trace w6)" by simp
        show ?thesis
        proof (cases a4)
          case (Inl e)
          with Suc.prems(1) m u1 l items t total f g5 show ?thesis
            by (auto simp: dest_def [symmetric] not_folder_delete_def)
        next
          case u4: (Inr u')
          show ?thesis
          proof (cases a5)
            case (Inl e)
            with Suc.prems(1) m u1 l items t total f u4 fl g6 show ?thesis
              by (auto simp: dest_def [symmetric] not_folder_delete_def)
          next
            case (Inr u'')
            with Suc.prems(1) m u1 l items t total f u4 fl
            have "delete_empty_folders d (src_id src) 5 (emit (PbarClosed pb1) w6) = (r, w1)"
              by (simp add: dest_def [symmetric])
            from delete_empty_folders_guarded(1) [OF this] g6 show ?thesis
              by (simp add: not_folder_delete_def)
          qed
        qed
      qed
    qed
  qed
qed

lemma main_try_guarded:
  assumes "main_try d md5 inp w = (r, w1)" and g: "deletes_guarded (trace w)"
  shows "deletes_guarded (trace w1)"
proof -
  obtain a1 w2 where l: "list_sources (Some (in_folder_id inp)) (Some (in_resource_key inp)) w = (a1, w2)"
    by (cases "list_sources (Some (in_folder_id inp)) (Some (in_resource_key inp)) w")
  from list_sources_guarded [OF l] g have g2: "deletes_guarded (trace w2)" by simp
  obtain a2 w3 where d: "get_destination 3 (in_destinations inp) w2 = (a2, w3)"
    by (cases "get_destination 3 (in_destinations inp) w2")
  from extends_guarded [OF get_destination_extends [OF d] listing_not_delete] g2
  have g3: "deletes_guarded (trace w3)" by simp
  have g4: "deletes_guarded (trace w4)"
    if "download_files d md5 src dest True w3 = (a3, w4)" for src dest a3 w4
    using download_files_guarded [OF that g3] .
  from assms(1) l d g2 g3 show ?thesis
    unfolding main_try_def
    by (auto split: sum.splits if_splits prod.splits simp: not_folder_delete_def dest: g4)
qed

lemma main_guarded:
  "deletes_guarded (trace w) \<Longrightarrow> deletes_guarded (trace (main d md5 inp w))"
  unfolding main_def
  by (auto split: sum.splits prod.splits simp: not_folder_delete_def dest: main_try_guarded)

text \<open>
  Claim C2. In every run of \<^verbatim>\<open>delete_empty_folders\<close>, of \<^verbatim>\<open>download_files\<close> and of
  the whole job, each attempt to delete a folder comes immediately after a call of
  \<^verbatim>\<open>list_sources\<close> on this folder that returned no item: between the listing and the
  attempt there are only the log lines, sleeps and earlier attempts of the same retry
  loop. After a listing that returned an item the folder listed is not deleted.
\<close>

theorem folder_deleted_only_after_empty_listing:
  "deletes_guarded (trace w) \<longrightarrow>
     deletes_guarded (trace (snd (delete_empty_folders d folder_id max_retry w)))
     \<and> deletes_guarded (trace (snd (download_files d md5 source dest_folder is_root w)))
     \<and> deletes_guarded (trace (main d md5 inp w))"
proof (intro impI conjI)
  assume g: "deletes_guarded (trace w)"
  show "deletes_guarded (trace (snd (delete_empty_folders d folder_id max_retry w)))"
    using delete_empty_folders_guarded(1) [OF _ g] by (metis prod.collapse)
  show "deletes_guarded (trace (snd (download_files d md5 source dest_folder is_root w)))"
    using download_files_guarded [OF _ g] by (metis prod.collapse)
  show "deletes_guarded (trace (main d md5 inp w))"
    using g by (rule main_guarded)
qed

lemma job_abc_trace_deletes:
  "folder_deletes (trace (main 4 toy_md5 job_abc (world_of store_abc [] []))) = [''b'', ''r'']"
  by code_simp

lemma deletes_guarded_rejects:
  "\<not> deletes_guarded [ListSourcesReturn (Some ''b'') [file_item ''c'' ''C.bin'' None 3], DeleteFolder ''b'']"
  "\<not> deletes_guarded [ListSourcesReturn (Some ''b'') [], DeleteFile ''c'', DeleteFolder ''b'']"
  "\<not> deletes_guarded [ListSourcesReturn (Some ''r'') [], DeleteFolder ''b'']"
  "deletes_guarded [ListSourcesReturn (Some ''b'') [], DeleteFolder ''b'', Log (Rate_limit_retrying 1), Sleep 1,
     DeleteFolder ''b'']"
  by (simp_all add: deletes_guarded_def guard_run_def guard_step_def)

theorem folder_deleted_only_after_empty_listing_witness:
  "deletes_guarded (trace (world_of store_abc [] []))
   \<and> deletes_guarded (trace (main 4 toy_md5 job_abc (world_of store_abc [] [])))
   \<and> folder_deletes (trace (main 4 toy_md5 job_abc (world_of store_abc [] []))) = [''b'', ''r'']"
proof -
  have g: "deletes_guarded (trace (world_of store_abc [] []))"
    by (simp add: world_of_def deletes_guarded_def guard_run_def)
  from folder_deleted_only_after_empty_listing [of "world_of store_abc [] []" 4 "''r''" 5 toy_md5
        "\<lparr>src_id = ''r'', src_name = ''Root''\<rparr>" "[''dst'']" True job_abc] g
  have "deletes_guarded (trace (main 4 toy_md5 job_abc (world_of store_abc [] [])))"
    by blast
  with g job_abc_trace_deletes show ?thesis
    by blast
qed

section \<open>A download whose retries are used up\<close>

text \<open>
  Claim C1 says that a file whose chunk retries are used up is given up: nothing is
  written and the remote file is not deleted. The code does otherwise. With five
  rate-limit errors in a row the \<^verbatim>\<open>else\<close> branch of the retry loop logs the error and
  \<^verbatim>\<open>download_file\<close> goes on: it logs "Download complete", writes the empty buffer to the
  destination file and deletes the file from the remote store.
\<close>

theorem download_file_after_exhausted_retries:
  "(case download_file toy_md5 (file_item ''a'' ''A.bin'' (Some ''h1'') 5) [''dst'']
           \<lparr>pb_total = 5, pb_n = 0\<rparr> 5 (world_of store_abc (replicate 5 (HttpFault 503)) []) of
      (r, pb, w) \<Rightarrow>
        r = Inr ()
        \<and> trace w =
            [Print ''A.bin'', Mkdir [''dst''], Log Downloading_file,
             NextChunk ''a'', Log (Rate_limit_retrying 1), Sleep 1,
             NextChunk ''a'', Log (Rate_limit_retrying 2), Sleep 2,
             NextChunk ''a'', Log (Rate_limit_retrying 4), Sleep 4,
             NextChunk ''a'', Log (Rate_limit_retrying 8), Sleep 8,
             NextChunk ''a'', Log (Rate_limit_retrying 16), Sleep 16,
             Log Exceeded_maximum_retry, Log Download_complete,
             WriteFile [''dst'', ''A.bin''] [], Log File_written,
             DeleteFile ''a'', Log File_deleted]
        \<and> local_files w [''dst'', ''A.bin''] = Some []
        \<and> has_node ''a'' (nodes (world_of store_abc (replicate 5 (HttpFault 503)) []))
        \<and> \<not> has_node ''a'' (nodes w))"
  by code_simp

section \<open>The totals\<close>

text \<open>
  Claim C6 says that \<^verbatim>\<open>get_total_files\<close> counts the files below a folder and that
  folders add nothing to the count. The code starts from \<^verbatim>\<open>len(items)\<close>, which counts
  the folders among the items too: for a root whose only child is an empty folder it
  returns 1 where there is no file, and for the root with \<^verbatim>\<open>A.bin\<close>, \<^verbatim>\<open>B\<close> and
  \<^verbatim>\<open>B/C.bin\<close> it returns 3 where there are 2 files. \<^verbatim>\<open>get_total_size\<close> leaves the folders
  out and returns the 0 and 8 bytes of the files.
\<close>

theorem get_total_files_counts_folders:
  "fst (get_total_files 3 ''r'' (world_of store_empty_folder [] [])) = Inr 1
   \<and> length (filter (\<lambda>n. \<not> is_folder (node_item n)) store_empty_folder) = 0
   \<and> fst (get_total_size 3 ''r'' (world_of store_empty_folder [] [])) = Inr 0
   \<and> fst (get_total_files 3 ''r'' (world_of store_abc [] [])) = Inr 3
   \<and> length (filter (\<lambda>n. \<not> is_folder (node_item n)) store_abc) = 2
   \<and> fst (get_total_size 3 ''r'' (world_of store_abc [] [])) = Inr 8"
  by code_simp

section \<open>Which remote operations are retried\<close>










lemma file_deletes_emit [simp]:
  "file_deletes (trace (emit e w)) = file_deletes (trace w) @ (case e of DeleteFile f \<Rightarrow> [f] | _ \<Rightarrow> [])"
  by (simp add: emit_def file_deletes_def)














section \<open>A destination file that matches\<close>

text \<open>
  Claim C4 says that after a hash match the remote deletion of the node is still
  attempted. The code returns at once: with \<^verbatim>\<open>dst/A.bin\<close> holding the content whose
  digest is the node's \<^verbatim>\<open>md5Checksum\<close>, the run makes the directory, reads the file,
  logs that it skips the download and ends; no remote call is made and the node stays in
  the remote store.
\<close>

theorem hash_match_skips_remote_delete:
  "(case download_file toy_md5 (file_item ''a'' ''A.bin'' (Some ''h1'') 5) [''dst'']
           \<lparr>pb_total = 5, pb_n = 0\<rparr> 5
           ((world_of store_abc [] [])\<lparr>local_files := [[''dst'', ''A.bin''] \<mapsto> ''hello'']\<rparr>) of
      (r, pb, w) \<Rightarrow>
        r = Inr ()
        \<and> trace w = [Print ''A.bin'', Mkdir [''dst''], ReadFile [''dst'', ''A.bin''],
                     Log Skipping_download]
        \<and> file_deletes (trace w) = []
        \<and> has_node ''a'' (nodes w))"
  by code_simp

text \<open>
  Claim C4, amended. When the destination file exists and its digest equals the node's
  \<^verbatim>\<open>md5Checksum\<close> (and making the directory and reading the file do not fail),
  \<^verbatim>\<open>download_file\<close> returns after the log line of the skip: the content is not fetched,
  nothing is written, and no remote deletion is attempted. The run adds four events to
  the trace, none of them a remote call; the remote store, the local files, the schedule
  of remote faults and the progress bar are as before.
\<close>

theorem hash_match_returns_without_remote_call:
  "list_all (\<lambda>b. \<not> b) (take 2 (local_faults w))
   \<and> local_files w dest_folder = None
   \<and> local_files w (joinpath dest_folder (item_name it)) = Some data
   \<and> md5Checksum it = Some (md5sum data) \<longrightarrow>
   download_file md5sum it dest_folder pb max_retry w =
     (Inr (), pb,
      w\<lparr>local_dirs := List.insert dest_folder (local_dirs w),
        local_faults := drop 2 (local_faults w),
        trace := trace w @ [Print (item_name it), Mkdir dest_folder,
                            ReadFile (joinpath dest_folder (item_name it)),
                            Log Skipping_download]\<rparr>)"
proof
  assume a: "list_all (\<lambda>b. \<not> b) (take 2 (local_faults w))
   \<and> local_files w dest_folder = None
   \<and> local_files w (joinpath dest_folder (item_name it)) = Some data
   \<and> md5Checksum it = Some (md5sum data)"
  consider "local_faults w = []" | "local_faults w = [False]"
    | rest where "local_faults w = False # False # rest"
  proof (cases "local_faults w")
    case Nil
    then show ?thesis using that by simp
  next
    case (Cons b bs)
    with a that show ?thesis
      by (cases bs) auto
  qed
  then show "download_file md5sum it dest_folder pb max_retry w =
     (Inr (), pb,
      w\<lparr>local_dirs := List.insert dest_folder (local_dirs w),
        local_faults := drop 2 (local_faults w),
        trace := trace w @ [Print (item_name it), Mkdir dest_folder,
                            ReadFile (joinpath dest_folder (item_name it)),
                            Log Skipping_download]\<rparr>)"
    using a
    by cases
       (simp_all add: download_file_def download_file_try_def local_mkdir_def local_read_def
          local_exists_def pop_local_fault_def emit_def Let_def)
qed

theorem hash_match_returns_without_remote_call_witness:
  "download_file toy_md5 (file_item ''a'' ''A.bin'' (Some ''h1'') 5) [''dst'']
     \<lparr>pb_total = 5, pb_n = 0\<rparr> 5
     ((world_of store_abc [] [])\<lparr>local_files := [[''dst'', ''A.bin''] \<mapsto> ''hello'']\<rparr>)
   = (Inr (), \<lparr>pb_total = 5, pb_n = 0\<rparr>,
      (world_of store_abc [] [])
        \<lparr>local_files := [[''dst'', ''A.bin''] \<mapsto> ''hello''],
          trace := [Print ''A.bin'', Mkdir [''dst''], ReadFile [''dst'', ''A.bin''],
                    Log Skipping_download]\<rparr>)"
proof -
  let ?w = "(world_of store_abc [] [])\<lparr>local_files := [[''dst'', ''A.bin''] \<mapsto> ''hello'']\<rparr>"
  let ?it = "file_item ''a'' ''A.bin'' (Some ''h1'') 5"
  have h: "list_all (\<lambda>b. \<not> b) (take 2 (local_faults ?w))
   \<and> local_files ?w [''dst''] = None
   \<and> local_files ?w (joinpath [''dst''] (item_name ?it)) = Some ''hello''
   \<and> md5Checksum ?it = Some (toy_md5 ''hello'')"
    by (simp add: world_of_def joinpath_def file_item_def toy_md5_def)
  from hash_match_returns_without_remote_call [where w = ?w and dest_folder = "[''dst'']"
         and it = ?it and data = "''hello''" and md5sum = toy_md5
         and pb = "\<lparr>pb_total = 5, pb_n = 0\<rparr>" and max_retry = 5] h
  show ?thesis
    by (simp add: world_of_def joinpath_def file_item_def)
qed

section \<open>Failures inside the transfer of one file\<close>

lemma next_chunk_exn: "next_chunk dl w = (Inl e, dl1, w1) \<Longrightarrow> remote_exn e"
  by (auto simp: next_chunk_def Let_def remote_exn_def split: prod.splits fault.splits option.splits)

lemma chunk_loop_exn:
  assumes "chunk_loop dl pb w = (r, dl1, pb1, w1)"
  shows "case r of Inl e \<Rightarrow> remote_exn e | Inr u \<Rightarrow> True"
  by (rule chunk_loop_rule [OF assms, where I = "\<lambda>dl pb' w'. True"
         and Q = "\<lambda>r dl pb' w'. case r of Inl e \<Rightarrow> remote_exn e | Inr u \<Rightarrow> True"])
     (auto dest: next_chunk_exn)

lemma retry_download_exn:
  "retry_download rs dl pb w = (Inl e, dl1, pb1, w1) \<Longrightarrow> remote_exn e"
proof (induction rs arbitrary: dl pb w)
  case Nil
  then show ?case by simp
next
  case (Cons i rs)
  obtain a dl2 pb2 w2 where c: "chunk_loop dl pb w = (a, dl2, pb2, w2)"
    by (cases "chunk_loop dl pb w") auto
  from chunk_loop_exn [OF c] Cons.prems c show ?case
    by (auto split: sum.splits exn.splits if_splits dest!: Cons.IH simp: remote_exn_def)
qed

lemma local_write_exn: "local_write p d w = (Inl e, w1) \<Longrightarrow> e = OSError"
  by (auto simp: local_write_def split: prod.splits bool.splits if_splits)

lemma local_read_exn: "local_read p w = (Inl e, w1) \<Longrightarrow> e = OSError"
  by (auto simp: local_read_def split: prod.splits bool.splits if_splits option.splits)

lemma local_mkdir_exn: "local_mkdir p w = (Inl e, w1) \<Longrightarrow> e = OSError"
  by (auto simp: local_mkdir_def split: prod.splits bool.splits if_splits)

lemma files_delete_execute_exn: "files_delete_execute site fid w = (Inl e, w1) \<Longrightarrow> remote_exn e"
  by (auto simp: files_delete_execute_def remote_exn_def split: prod.splits fault.splits if_splits)

lemma new_downloader_exn: "new_downloader it p = Inl e \<Longrightarrow> e = ValueError"
  by (auto simp: new_downloader_def with_suffix_def Let_def split: option.splits prod.splits sum.splits if_splits)

lemma download_file_fetch_exn:
  "download_file_fetch it p pb n w = (Inl e, pb1, w1) \<Longrightarrow> e \<noteq> RecursionError"
  unfolding download_file_fetch_def
  by (auto split: sum.splits prod.splits exn.splits
           dest!: retry_download_exn local_write_exn files_delete_execute_exn new_downloader_exn
           simp: remote_exn_def)

lemma download_file_try_exn:
  "download_file_try md5 it p pb n w = (Inl e, pb1, w1) \<Longrightarrow> e \<noteq> RecursionError"
  unfolding download_file_try_def Let_def
  by (auto split: sum.splits prod.splits if_splits
           dest!: download_file_fetch_exn local_mkdir_exn local_read_exn)

lemma download_file_exn:
  "download_file md5 it p pb n w = (Inl e, pb1, w1) \<Longrightarrow> local_exn e"
  unfolding download_file_def
  by (auto split: sum.splits prod.splits exn.splits
           dest!: download_file_try_exn simp: local_exn_def)

lemma download_files_loop_exn:
  "download_files_loop md5 items p pb w = (Inl e, pb1, w1) \<Longrightarrow> local_exn e"
proof (induction items arbitrary: pb w)
  case Nil
  then show ?case by simp
next
  case (Cons it items)
  then show ?case
    by (auto split: if_splits sum.splits prod.splits dest!: download_file_exn)
qed

lemma prints_transfer:
  "extends transfer_event w w1 \<Longrightarrow> prints (trace w1) = prints (trace w)"
  using extends_concat_map [of transfer_event w w1 "\<lambda>e. case e of Print n \<Rightarrow> [n] | _ \<Rightarrow> []"]
  by (auto simp: prints_def transfer_event_def split: event.splits)

lemma download_file_prints:
  assumes "download_file md5 it p pb n w = (r, pb1, w1)"
  shows "prints (trace w1) = prints (trace w) @ [item_name it]"
proof -
  obtain a pb2 w2 where t: "download_file_try md5 it p pb n (emit (Print (item_name it)) w) = (a, pb2, w2)"
    by (cases "download_file_try md5 it p pb n (emit (Print (item_name it)) w)") auto
  from prints_transfer [OF download_file_try_extends [OF t]]
  have "prints (trace w2) = prints (trace w) @ [item_name it]"
    by (simp add: emit_def prints_def)
  with assms t show ?thesis
    by (auto simp: download_file_def emit_def prints_def split: sum.splits exn.splits)
qed

lemma download_files_loop_prints:
  "download_files_loop md5 items p pb w = (Inr (), pb1, w1) \<Longrightarrow>
   prints (trace w1) = prints (trace w) @ map item_name (filter (\<lambda>it. \<not> is_folder it) items)"
proof (induction items arbitrary: pb w)
  case Nil
  then show ?case by simp
next
  case (Cons it items)
  show ?case
  proof (cases "is_folder it")
    case True
    with Cons show ?thesis by simp
  next
    case False
    obtain a pb2 w2 where d: "download_file md5 it p pb 5 w = (a, pb2, w2)"
      by (cases "download_file md5 it p pb 5 w") auto
    from download_file_prints [OF d] have p2: "prints (trace w2) = prints (trace w) @ [item_name it]" .
    from Cons.prems False d have "a = Inr ()" and "download_files_loop md5 items p pb2 w2 = (Inr (), pb1, w1)"
      by (auto split: sum.splits)
    from Cons.IH [OF this(2)] p2 False show ?thesis
      by simp
  qed
qed

lemma download_file_mkdir_fails:
  assumes "local_faults w = True # rest"
  shows "fst (download_file md5 it p pb n w) = Inl OSError"
  using assms
  by (simp add: download_file_def download_file_try_def local_mkdir_def pop_local_fault_def
        emit_def Let_def)

text \<open>
  Claim C5 says that a failure inside the transfer of one file, a local filesystem
  failure on write or mkdir included, never ends the transfers of the sibling files or
  the walk. A failing write does: the root holds \<^verbatim>\<open>A.bin\<close> and \<^verbatim>\<open>A2.bin\<close>, and the
  third local file operation, the write of \<^verbatim>\<open>A.bin\<close>, raises. The exception leaves
  \<^verbatim>\<open>download_file\<close> and \<^verbatim>\<open>download_files\<close>; \<^verbatim>\<open>A2.bin\<close> is never processed and
  \<^verbatim>\<open>main\<close> logs the error and ends.
\<close>

theorem local_write_failure_aborts_walk:
  "(case download_files 3 toy_md5 \<lparr>src_id = ''r'', src_name = ''Root''\<rparr> [''dst''] True
          (world_of store_two [] [False, False, True]) of
      (r, w) \<Rightarrow>
        r = Inl OSError
        \<and> prints (trace w) = [''A.bin'']
        \<and> remote_calls (trace w)
            = [FilesList (parent_query ''r'') None, FilesList (parent_query ''r'') None,
               NextChunk ''a'']
        \<and> has_node ''a2'' (nodes w))
   \<and> last (trace (main 4 toy_md5 job_abc (world_of store_two [] [False, False, True])))
       = Log (Main_error OSError)"
  by code_simp

text \<open>
  Claim C5, amended. An \<^verbatim>\<open>HttpError\<close> raised inside the transfer of one file never
  ends the transfers of the sibling files: \<^verbatim>\<open>download_file\<close> catches it and returns, so
  the only exceptions that leave \<^verbatim>\<open>download_file\<close> and the loop over the files are
  those that are not an \<^verbatim>\<open>HttpError\<close>, and a loop that meets none of them processes
  every file of the folder. A local filesystem failure is not caught: when the creation of
  the destination folder fails, the \<^verbatim>\<open>OSError\<close> leaves \<^verbatim>\<open>download_file\<close> and the
  loop, and the following files are not processed.
\<close>

theorem http_errors_stay_inside_file_transfer:
  "(case download_file md5sum it dest_folder pb max_retry w of
      (r, pb1, w1) \<Rightarrow> r = Inr () \<or> r = Inl OSError \<or> r = Inl ValueError \<or> r = Inl OtherError)
   \<and> (case download_files_loop md5sum items dest_folder pb w of
      (r, pb1, w1) \<Rightarrow>
        (r = Inr () \<or> r = Inl OSError \<or> r = Inl ValueError \<or> r = Inl OtherError)
        \<and> (r = Inr () \<longrightarrow>
             prints (trace w1)
               = prints (trace w) @ map item_name (filter (\<lambda>it. \<not> is_folder it) items)))
   \<and> (local_faults w = True # rest \<and> \<not> is_folder it \<longrightarrow>
        fst (download_file md5sum it dest_folder pb max_retry w) = Inl OSError
        \<and> fst (download_files_loop md5sum (it # items) dest_folder pb w) = Inl OSError)"
proof (intro conjI)
  obtain r pb1 w1 where a: "download_file md5sum it dest_folder pb max_retry w = (r, pb1, w1)"
    by (cases "download_file md5sum it dest_folder pb max_retry w") auto
  have "r = Inr () \<or> r = Inl OSError \<or> r = Inl ValueError \<or> r = Inl OtherError"
  proof (cases r)
    case (Inl e)
    with a download_file_exn [of md5sum it dest_folder pb max_retry w e pb1 w1] show ?thesis
      by (cases e) (simp_all add: local_exn_def)
  next
    case (Inr u)
    then show ?thesis by simp
  qed
  then show "case download_file md5sum it dest_folder pb max_retry w of
      (r, pb1, w1) \<Rightarrow> r = Inr () \<or> r = Inl OSError \<or> r = Inl ValueError \<or> r = Inl OtherError"
    by (simp add: a)
next
  obtain r pb1 w1 where a: "download_files_loop md5sum items dest_folder pb w = (r, pb1, w1)"
    by (cases "download_files_loop md5sum items dest_folder pb w") auto
  have "r = Inr () \<or> r = Inl OSError \<or> r = Inl ValueError \<or> r = Inl OtherError"
  proof (cases r)
    case (Inl e)
    with a download_files_loop_exn [of md5sum items dest_folder pb w e pb1 w1] show ?thesis
      by (cases e) (simp_all add: local_exn_def)
  next
    case (Inr u)
    then show ?thesis by simp
  qed
  moreover have "r = Inr () \<longrightarrow>
             prints (trace w1)
               = prints (trace w) @ map item_name (filter (\<lambda>it. \<not> is_folder it) items)"
    using a download_files_loop_prints [of md5sum items dest_folder pb w pb1 w1] by auto
  ultimately show "case download_files_loop md5sum items dest_folder pb w of
      (r, pb1, w1) \<Rightarrow>
        (r = Inr () \<or> r = Inl OSError \<or> r = Inl ValueError \<or> r = Inl OtherError)
        \<and> (r = Inr () \<longrightarrow>
             prints (trace w1)
               = prints (trace w) @ map item_name (filter (\<lambda>it. \<not> is_folder it) items))"
    by (simp add: a)
next
  show "local_faults w = True # rest \<and> \<not> is_folder it \<longrightarrow>
        fst (download_file md5sum it dest_folder pb max_retry w) = Inl OSError
        \<and> fst (download_files_loop md5sum (it # items) dest_folder pb w) = Inl OSError"
  proof (intro impI conjI)
    assume h: "local_faults w = True # rest \<and> \<not> is_folder it"
    then show "fst (download_file md5sum it dest_folder pb max_retry w) = Inl OSError"
      by (simp add: download_file_mkdir_fails)
    from h download_file_mkdir_fails [of w rest md5sum it dest_folder pb 5]
    show "fst (download_files_loop md5sum (it # items) dest_folder pb w) = Inl OSError"
      by (auto split: prod.splits sum.splits)
  qed
qed

lemma two_files_with_permanent_error:
  "(case download_files_loop toy_md5
           [file_item ''a'' ''A.bin'' (Some ''h1'') 5, file_item ''a2'' ''A2.bin'' (Some ''h2'') 3]
           [''dst''] \<lparr>pb_total = 8, pb_n = 0\<rparr> (world_of store_two [HttpFault 404] []) of
      (r, pb1, w1) \<Rightarrow>
        r = Inr ()
        \<and> remote_calls (trace w1) = [NextChunk ''a'', NextChunk ''a2'', DeleteFile ''a2'']
        \<and> local_files w1 [''dst'', ''A2.bin''] = Some ''abc'')"
  by code_simp

theorem http_errors_stay_inside_file_transfer_witness:
  "(case download_files_loop toy_md5
           [file_item ''a'' ''A.bin'' (Some ''h1'') 5, file_item ''a2'' ''A2.bin'' (Some ''h2'') 3]
           [''dst''] \<lparr>pb_total = 8, pb_n = 0\<rparr> (world_of store_two [HttpFault 404] []) of
      (r, pb1, w1) \<Rightarrow>
        r = Inr ()
        \<and> prints (trace w1) = [''A.bin'', ''A2.bin'']
        \<and> remote_calls (trace w1) = [NextChunk ''a'', NextChunk ''a2'', DeleteFile ''a2'']
        \<and> local_files w1 [''dst'', ''A2.bin''] = Some ''abc'')
   \<and> fst (download_files_loop toy_md5
           [file_item ''a'' ''A.bin'' (Some ''h1'') 5, file_item ''a2'' ''A2.bin'' (Some ''h2'') 3]
           [''dst''] \<lparr>pb_total = 8, pb_n = 0\<rparr> (world_of store_two [] [True])) = Inl OSError"
proof -
  let ?items = "[file_item ''a'' ''A.bin'' (Some ''h1'') 5, file_item ''a2'' ''A2.bin'' (Some ''h2'') 3]"
  have f: "\<not> is_folder (file_item ''a'' ''A.bin'' (Some ''h1'') 5)"
    "\<not> is_folder (file_item ''a2'' ''A2.bin'' (Some ''h2'') 3)"
    by (simp_all add: is_folder_def file_item_def folder_mime_def)
  have p0: "prints (trace (world_of store_two [HttpFault 404] [])) = []"
    by (simp add: world_of_def prints_def)
  from http_errors_stay_inside_file_transfer [where md5sum = toy_md5 and items = ?items
         and dest_folder = "[''dst'']" and pb = "\<lparr>pb_total = 8, pb_n = 0\<rparr>"
         and w = "world_of store_two [HttpFault 404] []"]
    two_files_with_permanent_error f p0
  have "(case download_files_loop toy_md5 ?items
           [''dst''] \<lparr>pb_total = 8, pb_n = 0\<rparr> (world_of store_two [HttpFault 404] []) of
      (r, pb1, w1) \<Rightarrow>
        r = Inr ()
        \<and> prints (trace w1) = [''A.bin'', ''A2.bin'']
        \<and> remote_calls (trace w1) = [NextChunk ''a'', NextChunk ''a2'', DeleteFile ''a2'']
        \<and> local_files w1 [''dst'', ''A2.bin''] = Some ''abc'')"
    by (auto simp: file_item_def split: prod.splits)
  moreover
  have l: "local_faults (world_of store_two [] [True]) = True # []"
    by (simp add: world_of_def)
  from http_errors_stay_inside_file_transfer [where md5sum = toy_md5
         and it = "file_item ''a'' ''A.bin'' (Some ''h1'') 5"
         and items = "[file_item ''a2'' ''A2.bin'' (Some ''h2'') 3]"
         and dest_folder = "[''dst'']" and pb = "\<lparr>pb_total = 8, pb_n = 0\<rparr>"
         and w = "world_of store_two [] [True]" and rest = "[]"] l f
  have "fst (download_files_loop toy_md5 ?items
           [''dst''] \<lparr>pb_total = 8, pb_n = 0\<rparr> (world_of store_two [] [True])) = Inl OSError"
    by blast
  ultimately show ?thesis by blast
qed

section \<open>The progress counter\<close>

lemma advanced_refl [simp]: "advanced pb pb"
  by (simp add: advanced_def)

lemma advanced_trans: "advanced pb pb1 \<Longrightarrow> advanced pb1 pb2 \<Longrightarrow> advanced pb pb2"
  by (auto simp: advanced_def)

lemma next_chunk_progress: "next_chunk dl w = (Inr (p, f), dl1, w1) \<Longrightarrow> 0 \<le> p"
  by (auto simp: next_chunk_def Let_def split: prod.splits fault.splits option.splits)

lemma advanced_update: "0 \<le> p \<Longrightarrow> advanced pb pb1 \<Longrightarrow> advanced pb (pbar_update p pb1)"
  by (simp add: advanced_def pbar_update_def)

lemma chunk_loop_advanced:
  assumes "chunk_loop dl pb w = (r, dl1, pb1, w1)"
  shows "advanced pb pb1"
  by (rule chunk_loop_rule [OF assms, where I = "\<lambda>dl pb' w'. advanced pb pb'"
                                         and Q = "\<lambda>r dl pb' w'. advanced pb pb'"])
     (auto intro: advanced_update dest: next_chunk_progress)

lemma retry_download_advanced:
  "retry_download rs dl pb w = (r, dl1, pb1, w1) \<Longrightarrow> advanced pb pb1"
proof (induction rs arbitrary: dl pb w)
  case Nil
  then show ?case by simp
next
  case (Cons i rs)
  obtain a dl2 pb2 w2 where c: "chunk_loop dl pb w = (a, dl2, pb2, w2)"
    by (cases "chunk_loop dl pb w") auto
  from chunk_loop_advanced [OF c] have e: "advanced pb pb2" .
  from Cons.prems c e show ?case
    by (auto split: sum.splits exn.splits if_splits
             dest!: Cons.IH intro: advanced_trans [OF e])
qed

lemma download_file_fetch_advanced:
  "download_file_fetch it p pb n w = (r, pb1, w1) \<Longrightarrow> advanced pb pb1"
  unfolding download_file_fetch_def
  by (auto split: sum.splits prod.splits exn.splits dest!: retry_download_advanced)

lemma download_file_try_advanced:
  "download_file_try md5 it p pb n w = (r, pb1, w1) \<Longrightarrow> advanced pb pb1"
  unfolding download_file_try_def Let_def
  by (auto split: sum.splits prod.splits if_splits dest!: download_file_fetch_advanced)

lemma download_file_advanced:
  "download_file md5 it p pb n w = (r, pb1, w1) \<Longrightarrow> advanced pb pb1"
  unfolding download_file_def
  by (auto split: sum.splits prod.splits exn.splits dest!: download_file_try_advanced)

lemma download_files_loop_advanced:
  "download_files_loop md5 items p pb w = (r, pb1, w1) \<Longrightarrow> advanced pb pb1"
proof (induction items arbitrary: pb w)
  case Nil
  then show ?case by simp
next
  case (Cons it items)
  then show ?case
    by (auto split: if_splits sum.splits prod.splits
             dest!: download_file_advanced elim: advanced_trans)
qed

lemma bar_run_snoc: "bar_run (tr @ [e]) = bar_step (bar_run tr) e"
  by (simp add: bar_run_def)

lemma bar_run_emit: "bar_run (trace (emit e w)) = bar_step (bar_run (trace w)) e"
  by (simp add: emit_def bar_run_snoc)

lemma bar_step_neutral: "bar_neutral e \<Longrightarrow> bar_step st e = st"
  by (cases e) (simp_all add: bar_neutral_def bar_step_def)

lemma bar_run_neutral:
  "list_all bar_neutral new \<Longrightarrow> bar_run (tr @ new) = bar_run tr"
proof (induction new rule: rev_induct)
  case Nil
  show ?case by simp
next
  case (snoc e new)
  then show ?case
    using bar_run_snoc [of "tr @ new" e] by (simp add: bar_step_neutral)
qed

lemma extends_bar_run:
  assumes "extends P w w1" and "\<And>e. P e \<Longrightarrow> bar_neutral e"
  shows "bar_run (trace w1) = bar_run (trace w)"
proof -
  from assms(1) obtain new where t: "trace w1 = trace w @ new" and "list_all P new"
    by (auto simp: extends_def)
  then have "list_all bar_neutral new"
    using assms(2) by (simp add: list_all_iff)
  from bar_run_neutral [OF this] t show ?thesis by simp
qed

lemma listing_neutral: "listing_event e \<Longrightarrow> bar_neutral e"
  by (cases e) (simp_all add: listing_event_def bar_neutral_def)

lemma reap_neutral: "reap_event e \<Longrightarrow> bar_neutral e"
  by (cases e) (simp_all add: reap_event_def bar_neutral_def)

lemma next_chunk_bar:
  assumes "next_chunk dl w = (r, dl1, w1)" and "bar_run (trace w) = (pb # st, True)"
  shows "bar_run (trace w1) = (pb # st, True)"
proof -
  from assms(1) have "trace w1 = trace w @ [NextChunk (dl_file dl)]"
    by (auto simp: next_chunk_def pop_remote_fault_def emit_def Let_def
             split: list.splits fault.splits option.splits)
  with assms(2) show ?thesis
    by (simp add: bar_run_snoc bar_step_def)
qed

lemma chunk_loop_bar:
  assumes "chunk_loop dl pb w = (r, dl1, pb1, w1)" and "bar_run (trace w) = (pb # st, True)"
  shows "bar_run (trace w1) = (pb1 # st, True)"
proof (rule chunk_loop_rule [OF assms(1),
         where I = "\<lambda>dl pb' w'. bar_run (trace w') = (pb' # st, True)"
           and Q = "\<lambda>r dl pb' w'. bar_run (trace w') = (pb' # st, True)"], goal_cases)
  case 1
  show ?case by (rule assms(2))
next
  case (2 dl pb w e dl2 w2)
  then show ?case by (auto dest: next_chunk_bar)
next
  case (3 dl pb w p dl2 w2)
  from next_chunk_bar [OF 3(2) 3(1)] next_chunk_progress [OF 3(2)] show ?case
    by (simp add: bar_run_emit bar_step_def)
next
  case (4 dl pb w p dl2 w2)
  from next_chunk_bar [OF 4(2) 4(1)] next_chunk_progress [OF 4(2)] show ?case
    by (simp add: bar_run_emit bar_step_def)
qed

lemma retry_download_bar:
  "retry_download rs dl pb w = (r, dl1, pb1, w1) \<Longrightarrow> bar_run (trace w) = (pb # st, True) \<Longrightarrow>
   bar_run (trace w1) = (pb1 # st, True)"
proof (induction rs arbitrary: dl pb w)
  case Nil
  then show ?case
    by (auto simp: bar_run_emit bar_step_def)
next
  case (Cons i rs)
  obtain a dl2 pb2 w2 where c: "chunk_loop dl pb w = (a, dl2, pb2, w2)"
    by (cases "chunk_loop dl pb w") auto
  from chunk_loop_bar [OF c Cons.prems(2)] have b2: "bar_run (trace w2) = (pb2 # st, True)" .
  then have b3: "bar_run (trace (emit (Sleep (2 ^ i)) (emit (Log (Rate_limit_retrying (2 ^ i))) w2)))
                  = (pb2 # st, True)"
    by (simp add: bar_run_emit bar_step_def)
  from Cons.prems(1) c b2 Cons.IH [OF _ b3] show ?case
    by (auto split: sum.splits exn.splits if_splits)
qed

lemma local_bar:
  "local_mkdir p w = (r, w1) \<Longrightarrow> bar_run (trace w1) = bar_run (trace w)"
  "local_read p w = (r', w1') \<Longrightarrow> bar_run (trace w1') = bar_run (trace w)"
  "local_write p d w = (r'', w1'') \<Longrightarrow> bar_run (trace w1'') = bar_run (trace w)"
  "files_delete_execute site fid w = (r''', w1''') \<Longrightarrow> bar_neutral (site fid) \<Longrightarrow>
     bar_run (trace w1''') = bar_run (trace w)"
  by (erule extends_bar_run [OF local_mkdir_extends [where P = bar_neutral]],
      simp_all add: bar_neutral_def,
      erule extends_bar_run [OF local_read_extends [where P = bar_neutral]],
      simp_all add: bar_neutral_def,
      erule extends_bar_run [OF local_write_extends [where P = bar_neutral]],
      simp_all add: bar_neutral_def,
      erule extends_bar_run [OF files_delete_execute_extends [where P = bar_neutral]],
      simp_all add: bar_neutral_def)

lemma download_file_fetch_bar:
  assumes "download_file_fetch it p pb n w = (r, pb1, w1)" and "bar_run (trace w) = (pb # st, True)"
  shows "bar_run (trace w1) = (pb1 # st, True)"
proof (cases "new_downloader it p")
  case (Inl e)
  with assms show ?thesis
    by (auto simp: download_file_fetch_def bar_run_emit bar_step_def)
next
  case (Inr x)
  obtain dl out_path where x: "x = (dl, out_path)" by (cases x)
  have b0: "bar_run (trace (emit (Log Downloading_file) w)) = (pb # st, True)"
    using assms(2) by (simp add: bar_run_emit bar_step_def)
  obtain a1 dl1 pb2 w2 where rd: "retry_download [0..<n] dl pb (emit (Log Downloading_file) w) = (a1, dl1, pb2, w2)"
    by (cases "retry_download [0..<n] dl pb (emit (Log Downloading_file) w)") auto
  from retry_download_bar [OF rd b0] have b2: "bar_run (trace w2) = (pb2 # st, True)" .
  obtain a2 w3 where lw: "local_write out_path (fh dl1) (emit (Log Download_complete) w2) = (a2, w3)"
    by (cases "local_write out_path (fh dl1) (emit (Log Download_complete) w2)")
  from local_bar(3) [OF lw] b2 have b3: "bar_run (trace w3) = (pb2 # st, True)"
    by (simp add: bar_run_emit bar_step_def)
  obtain a3 w4 where de: "files_delete_execute DeleteFile (item_id it) (emit (Log File_written) w3) = (a3, w4)"
    by (cases "files_delete_execute DeleteFile (item_id it) (emit (Log File_written) w3)")
  from local_bar(4) [OF de] b3 have b4: "bar_run (trace w4) = (pb2 # st, True)"
    by (simp add: bar_run_emit bar_step_def bar_neutral_def)
  from assms(1) Inr x rd lw de b2 b3 b4 show ?thesis
    by (auto simp: download_file_fetch_def bar_run_emit bar_step_def split: sum.splits exn.splits)
qed

lemma download_file_try_bar:
  assumes "download_file_try md5 it p pb n w = (r, pb1, w1)" and "bar_run (trace w) = (pb # st, True)"
  shows "bar_run (trace w1) = (pb1 # st, True)"
proof -
  obtain a1 w2 where m: "local_mkdir p w = (a1, w2)"
    by (cases "local_mkdir p w")
  from local_bar(1) [OF m] assms(2) have b2: "bar_run (trace w2) = (pb # st, True)" by simp
  obtain a2 w3 where rd: "local_read (joinpath p (item_name it)) w2 = (a2, w3)"
    by (cases "local_read (joinpath p (item_name it)) w2")
  from local_bar(2) [OF rd] b2 have b3: "bar_run (trace w3) = (pb # st, True)" by simp
  from assms(1) m rd b2 b3 show ?thesis
    by (auto simp: download_file_try_def Let_def bar_run_emit bar_step_def
             split: sum.splits if_splits dest: download_file_fetch_bar)
qed

lemma download_file_bar:
  assumes "download_file md5 it p pb n w = (r, pb1, w1)" and "bar_run (trace w) = (pb # st, True)"
  shows "bar_run (trace w1) = (pb1 # st, True)"
proof -
  have b0: "bar_run (trace (emit (Print (item_name it)) w)) = (pb # st, True)"
    using assms(2) by (simp add: bar_run_emit bar_step_def)
  obtain a pb2 w2 where t: "download_file_try md5 it p pb n (emit (Print (item_name it)) w) = (a, pb2, w2)"
    by (cases "download_file_try md5 it p pb n (emit (Print (item_name it)) w)") auto
  from download_file_try_bar [OF t b0] have "bar_run (trace w2) = (pb2 # st, True)" .
  with assms(1) t show ?thesis
    by (auto simp: download_file_def bar_run_emit bar_step_def split: sum.splits exn.splits)
qed

lemma download_files_loop_bar:
  "download_files_loop md5 items p pb w = (r, pb1, w1) \<Longrightarrow> bar_run (trace w) = (pb # st, True) \<Longrightarrow>
   bar_run (trace w1) = (pb1 # st, True)"
proof (induction items arbitrary: pb w)
  case Nil
  then show ?case by simp
next
  case (Cons it items)
  show ?case
  proof (cases "is_folder it")
    case True
    with Cons show ?thesis by simp
  next
    case False
    obtain a pb2 w2 where d: "download_file md5 it p pb 5 w = (a, pb2, w2)"
      by (cases "download_file md5 it p pb 5 w") auto
    from download_file_bar [OF d Cons.prems(2)] have b2: "bar_run (trace w2) = (pb2 # st, True)" .
    from Cons.prems(1) False d b2 Cons.IH [OF _ b2] show ?thesis
      by (auto split: sum.splits)
  qed
qed

lemma download_folders_loop_bar:
  assumes H: "\<And>src dest w r w1 st. download_files d md5 src dest False w = (r, w1) \<Longrightarrow>
                bar_run (trace w) = (st, True) \<Longrightarrow> bar_run (trace w1) = (st, True)"
  shows "download_folders_loop d md5 items dest w = (r, w1) \<Longrightarrow>
         bar_run (trace w) = (st, True) \<Longrightarrow> bar_run (trace w1) = (st, True)"
proof (induction items arbitrary: w)
  case Nil
  then show ?case by simp
next
  case (Cons it items)
  show ?case
  proof (cases "is_folder it")
    case False
    with Cons show ?thesis by simp
  next
    case True
    obtain a w2 where c: "download_files d md5 \<lparr>src_id = item_id it, src_name = item_name it\<rparr> dest False w = (a, w2)"
      by (cases "download_files d md5 \<lparr>src_id = item_id it, src_name = item_name it\<rparr> dest False w")
    from H [OF c Cons.prems(2)] have g2: "bar_run (trace w2) = (st, True)" .
    from Cons.prems(1) True c g2 Cons.IH [of w2] show ?thesis
      by (cases a) auto
  qed
qed

lemma download_files_bar:
  "download_files d md5 src dest_folder is_root w = (r, w1) \<Longrightarrow>
   bar_run (trace w) = (st, True) \<Longrightarrow> bar_run (trace w1) = (st, True)"
proof (induction d arbitrary: src dest_folder is_root w r w1 st)
  case 0
  then show ?case by simp
next
  case (Suc d)
  define dest where "dest = (if \<not> is_root then joinpath dest_folder (src_name src) else dest_folder)"
  obtain a1 w2 where m: "local_mkdir dest w = (a1, w2)"
    by (cases "local_mkdir dest w")
  from local_bar(1) [OF m] Suc.prems(2) have g2: "bar_run (trace w2) = (st, True)" by simp
  obtain a2 w3 where l: "list_sources (Some (src_id src)) None w2 = (a2, w3)"
    by (cases "list_sources (Some (src_id src)) None w2")
  from extends_bar_run [OF list_sources_extends [OF l] listing_neutral] g2
  have g3: "bar_run (trace w3) = (st, True)" by simp
  obtain a3 w4 where t: "get_total_size d (src_id src) w3 = (a3, w4)"
    by (cases "get_total_size d (src_id src) w3")
  from extends_bar_run [OF total_size_extends(1) [OF t] listing_neutral] g3
  have g4: "bar_run (trace w4) = (st, True)" by simp
  show ?case
  proof (cases a1)
    case (Inl e)
    with Suc.prems(1) m g2 show ?thesis by (auto simp: dest_def [symmetric])
  next
    case u1: (Inr u)
    show ?thesis
    proof (cases a2)
      case (Inl e)
      with Suc.prems(1) m u1 l g3 show ?thesis by (auto simp: dest_def [symmetric])
    next
      case items: (Inr items)
      show ?thesis
      proof (cases a3)
        case (Inl e)
        with Suc.prems(1) m u1 l items t g4 show ?thesis by (auto simp: dest_def [symmetric])
      next
        case total: (Inr total_size)
        let ?pb = "\<lparr>pb_total = total_size, pb_n = 0\<rparr>"
        have g4': "bar_run (trace (emit (PbarCreated total_size) w4)) = (?pb # st, True)"
          using g4 by (simp add: bar_run_emit bar_step_def)
        obtain a4 pb1 w5 where f: "download_files_loop md5 items dest ?pb
              (emit (PbarCreated total_size) w4) = (a4, pb1, w5)"
          by (cases "download_files_loop md5 items dest ?pb (emit (PbarCreated total_size) w4)") auto
        from download_files_loop_bar [OF f g4']
        have g5: "bar_run (trace w5) = (pb1 # st, True)" .
        then have g5': "bar_run (trace (emit (PbarClosed pb1) w5)) = (st, True)"
          by (simp add: bar_run_emit bar_step_def)
        obtain a5 w6 where fl: "download_folders_loop d md5 items dest w5 = (a5, w6)"
          by (cases "download_folders_loop d md5 items dest w5")
        from download_folders_loop_bar [OF Suc.IH fl g5]
        have g6: "bar_run (trace w6) = (pb1 # st, True)" by simp
        then have g6': "bar_run (trace (emit (PbarClosed pb1) w6)) = (st, True)"
          by (simp add: bar_run_emit bar_step_def)
        show ?thesis
        proof (cases a4)
          case (Inl e)
          with Suc.prems(1) m u1 l items t total f g5' show ?thesis
            by (auto simp: dest_def [symmetric])
        next
          case u4: (Inr u')
          show ?thesis
          proof (cases a5)
            case (Inl e)
            with Suc.prems(1) m u1 l items t total f u4 fl g6' show ?thesis
              by (auto simp: dest_def [symmetric])
          next
            case (Inr u'')
            with Suc.prems(1) m u1 l items t total f u4 fl
            have "delete_empty_folders d (src_id src) 5 (emit (PbarClosed pb1) w6) = (r, w1)"
              by (simp add: dest_def [symmetric])
            from extends_bar_run [OF delete_empty_folders_extends(1) [OF this] reap_neutral] g6'
            show ?thesis by simp
          qed
        qed
      qed
    qed
  qed
qed

lemma download_files_opens_counter:
  assumes m: "local_mkdir (if \<not> is_root then joinpath dest_folder (src_name src) else dest_folder) w
                = (Inr (), w1)"
    and l: "list_sources (Some (src_id src)) None w1 = (Inr items, w2)"
    and t: "get_total_size d (src_id src) w2 = (Inr total_size, w3)"
  shows "\<exists>rest. trace (snd (download_files (Suc d) md5 src dest_folder is_root w))
                 = trace w3 @ PbarCreated total_size # rest"
proof -
  define dest where "dest = (if \<not> is_root then joinpath dest_folder (src_name src) else dest_folder)"
  let ?pb = "\<lparr>pb_total = total_size, pb_n = 0\<rparr>"
  let ?w4 = "emit (PbarCreated total_size) w3"
  obtain r wf where run: "download_files (Suc d) md5 src dest_folder is_root w = (r, wf)"
    by (cases "download_files (Suc d) md5 src dest_folder is_root w")
  obtain a4 pb1 w5 where f: "download_files_loop md5 items dest ?pb ?w4 = (a4, pb1, w5)"
    by (cases "download_files_loop md5 items dest ?pb ?w4") auto
  have g5: "extends any_event ?w4 w5"
    by (rule grows [OF download_files_loop_extends [OF f]])
  then have g5': "extends any_event ?w4 (emit (PbarClosed pb1) w5)"
    by (intro extends_emit) (simp_all add: any_event_def)
  obtain a5 w6 where fl: "download_folders_loop d md5 items dest w5 = (a5, w6)"
    by (cases "download_folders_loop d md5 items dest w5")
  from extends_trans [OF g5 download_folders_loop_grows [OF download_files_grows fl]]
  have g6: "extends any_event ?w4 w6" .
  then have g6': "extends any_event ?w4 (emit (PbarClosed pb1) w6)"
    by (intro extends_emit) (simp_all add: any_event_def)
  have g7: "extends any_event ?w4 w7"
    if "delete_empty_folders d (src_id src) 5 (emit (PbarClosed pb1) w6) = (r7, w7)" for r7 w7
    using extends_trans [OF g6' grows [OF delete_empty_folders_extends(1) [OF that]]] .
  have "extends any_event ?w4 wf"
    using run m l t f fl g5' g6' g7
    by (auto simp: dest_def [symmetric] split: sum.splits)
  then obtain new where "trace wf = trace w3 @ PbarCreated total_size # new"
    by (auto simp: extends_def emit_def)
  then show ?thesis
    unfolding run by simp
qed

text \<open>
  Claim C7 says that one progress counter, bounded by the total computed once, is
  threaded through the whole walk and advanced by the length of each chunk. On a root
  with one file of 8 bytes that arrives in chunks of 5 and 3 bytes, the counter is
  advanced by 5 and then by 8, the bytes received so far, and ends at 13 with a total
  of 8. On the root with \<^verbatim>\<open>A.bin\<close> and \<^verbatim>\<open>B/C.bin\<close> the call for \<^verbatim>\<open>B\<close> opens a second
  counter with total 3; the counter of the root, with total 8, is closed at 5.
\<close>

theorem progress_exceeds_total:
  "progress_events (trace (snd (download_files 3 toy_md5 \<lparr>src_id = ''r'', src_name = ''Root''\<rparr>
          [''dst''] True (world_of store_chunked [] [])))) =
     [PbarCreated 8, PbarUpdate 5, PbarUpdate 8, PbarClosed \<lparr>pb_total = 8, pb_n = 13\<rparr>]
   \<and> progress_events (trace (snd (download_files 3 toy_md5 \<lparr>src_id = ''r'', src_name = ''Root''\<rparr>
          [''dst''] True (world_of store_abc [] [])))) =
     [PbarCreated 8, PbarUpdate 5, PbarCreated 3, PbarUpdate 3,
      PbarClosed \<lparr>pb_total = 3, pb_n = 3\<rparr>, PbarClosed \<lparr>pb_total = 8, pb_n = 5\<rparr>]"
  by code_simp

text \<open>
  Claim C7, amended. Every call of \<^verbatim>\<open>download_files\<close>, one for each folder of the walk,
  works on a progress counter of its own. The counter is created right after
  \<^verbatim>\<open>get_total_size\<close> of the folder has returned, with this total and the count 0, and no
  chunk is fetched before a counter is open. The transfers of the files of the folder
  advance this counter and no other, each time by an amount that is not negative, so the
  counter keeps its total and never decreases; the calls for the subfolders open and close
  counters of their own and leave it as it is. The counter is closed, with the sum of
  its advances, before the call returns.
\<close>

theorem progress_counter_of_each_call:
  "(bar_run (trace w) = (st, True) \<longrightarrow>
      bar_run (trace (snd (download_files d md5sum source dest_folder is_root w))) = (st, True))
   \<and> (local_mkdir (if \<not> is_root then joinpath dest_folder (src_name source) else dest_folder) w
          = (Inr (), w1)
        \<and> list_sources (Some (src_id source)) None w1 = (Inr items, w2)
        \<and> get_total_size d (src_id source) w2 = (Inr total_size, w3) \<longrightarrow>
       (\<exists>rest. trace (snd (download_files (Suc d) md5sum source dest_folder is_root w))
                  = trace w3 @ PbarCreated total_size # rest))
   \<and> (case download_files_loop md5sum items dest_folder pb w of
        (r, pb1, w') \<Rightarrow> pb_total pb1 = pb_total pb \<and> pb_n pb \<le> pb_n pb1)"
proof (intro conjI impI)
  assume b: "bar_run (trace w) = (st, True)"
  obtain r wf where run: "download_files d md5sum source dest_folder is_root w = (r, wf)"
    by (cases "download_files d md5sum source dest_folder is_root w")
  from download_files_bar [OF run b]
  show "bar_run (trace (snd (download_files d md5sum source dest_folder is_root w))) = (st, True)"
    by (simp add: run)
next
  assume "local_mkdir (if \<not> is_root then joinpath dest_folder (src_name source) else dest_folder) w
          = (Inr (), w1)
        \<and> list_sources (Some (src_id source)) None w1 = (Inr items, w2)
        \<and> get_total_size d (src_id source) w2 = (Inr total_size, w3)"
  then have m: "local_mkdir (if \<not> is_root then joinpath dest_folder (src_name source) else dest_folder) w
          = (Inr (), w1)"
    and l: "list_sources (Some (src_id source)) None w1 = (Inr items, w2)"
    and t: "get_total_size d (src_id source) w2 = (Inr total_size, w3)"
    by simp_all
  show "\<exists>rest. trace (snd (download_files (Suc d) md5sum source dest_folder is_root w))
                  = trace w3 @ PbarCreated total_size # rest"
    by (rule download_files_opens_counter [OF m l t])
next
  obtain r pb1 w1 where a: "download_files_loop md5sum items dest_folder pb w = (r, pb1, w1)"
    by (cases "download_files_loop md5sum items dest_folder pb w") auto
  from download_files_loop_advanced [OF a]
  show "case download_files_loop md5sum items dest_folder pb w of
      (r, pb1, w') \<Rightarrow> pb_total pb1 = pb_total pb \<and> pb_n pb \<le> pb_n pb1"
    by (simp add: a advanced_def)
qed

lemma job_abc_sizing:
  "fst (local_mkdir [''dst''] (world_of store_abc [] [])) = Inr ()
   \<and> fst (list_sources (Some ''r'') None (snd (local_mkdir [''dst''] (world_of store_abc [] []))))
     = Inr [file_item ''a'' ''A.bin'' (Some ''h1'') 5, folder_item ''b'' ''B'']
   \<and> fst (get_total_size 2 ''r''
        (snd (list_sources (Some ''r'') None (snd (local_mkdir [''dst''] (world_of store_abc [] []))))))
     = Inr 8
   \<and> length (trace (snd (get_total_size 2 ''r''
          (snd (list_sources (Some ''r'') None (snd (local_mkdir [''dst''] (world_of store_abc [] []))))))))
       = 7"
  by code_simp

theorem progress_counter_of_each_call_witness:
  "bar_run (trace (world_of store_abc [] [])) = ([], True)
   \<and> bar_run (trace (snd (download_files 3 toy_md5 \<lparr>src_id = ''r'', src_name = ''Root''\<rparr>
                            [''dst''] True (world_of store_abc [] [])))) = ([], True)
   \<and> (\<exists>rest. drop 7 (trace (snd (download_files 3 toy_md5 \<lparr>src_id = ''r'', src_name = ''Root''\<rparr>
                            [''dst''] True (world_of store_abc [] []))))
              = PbarCreated 8 # rest)"
proof -
  let ?w = "world_of store_abc [] []"
  let ?src = "\<lparr>src_id = ''r'', src_name = ''Root''\<rparr>"
  let ?items = "[file_item ''a'' ''A.bin'' (Some ''h1'') 5, folder_item ''b'' ''B'']"
  let ?w1 = "snd (local_mkdir [''dst''] ?w)"
  let ?w2 = "snd (list_sources (Some ''r'') None ?w1)"
  let ?w3 = "snd (get_total_size 2 ''r'' ?w2)"
  have b: "bar_run (trace ?w) = ([], True)"
    by (simp add: world_of_def bar_run_def)
  from progress_counter_of_each_call [where w = ?w and st = "[]" and d = 3
      and md5sum = toy_md5 and source = ?src and dest_folder = "[''dst'']" and is_root = True] b
  have c1: "bar_run (trace (snd (download_files 3 toy_md5 ?src [''dst''] True ?w))) = ([], True)"
    by blast
  have n: "(3::nat) = Suc 2" by simp
  have h: "local_mkdir (if \<not> True then joinpath [''dst''] (src_name ?src) else [''dst'']) ?w = (Inr (), ?w1)
        \<and> list_sources (Some (src_id ?src)) None ?w1 = (Inr ?items, ?w2)
        \<and> get_total_size 2 (src_id ?src) ?w2 = (Inr 8, ?w3)"
    using job_abc_sizing by (simp add: prod_eq_iff)
  from progress_counter_of_each_call [where w = ?w and d = 2
      and md5sum = toy_md5 and source = ?src and dest_folder = "[''dst'']" and is_root = True
      and ?w1.0 = ?w1 and ?w2.0 = ?w2 and ?w3.0 = ?w3 and total_size = 8 and items = ?items] h
  obtain rest where "trace (snd (download_files (Suc 2) toy_md5 ?src [''dst''] True ?w))
                       = trace ?w3 @ PbarCreated 8 # rest"
    by blast
  with job_abc_sizing have "drop 7 (trace (snd (download_files 3 toy_md5 ?src [''dst''] True ?w)))
              = PbarCreated 8 # rest"
    unfolding n by simp
  with b c1 show ?thesis by blast
qed

section \<open>The root folder\<close>

lemma download_files_ends_with_reaper:
  assumes "download_files (Suc d) md5 source dest_folder is_root w = (Inr (), w1)"
  shows "\<exists>w0. delete_empty_folders d (src_id source) 5 w0 = (Inr (), w1)"
  using assms
  by (auto simp: Let_def split: prod.splits sum.splits)

text \<open>
  Claim C9 says that the job never deletes the root folder. It does: in the scenario of
  the specification both files are downloaded and deleted, \<^verbatim>\<open>B\<close> is deleted, and then
  the listing of the root returns nothing and the root is deleted too.
\<close>

theorem root_folder_deleted:
  "folder_deletes (trace (main 4 toy_md5 job_abc (world_of store_abc [] []))) = [''b'', ''r'']
   \<and> has_node ''r'' (nodes (world_of store_abc [] []))
   \<and> \<not> has_node ''r'' (nodes (main 4 toy_md5 job_abc (world_of store_abc [] [])))"
  by code_simp

text \<open>
  Claim C9, amended. The root folder is reaped like every other folder: a call of
  \<^verbatim>\<open>download_files\<close> that returns, for the root as for a subfolder, ends with
  \<^verbatim>\<open>delete_empty_folders\<close> on its own folder; and \<^verbatim>\<open>delete_empty_folders\<close> on a folder
  of the store that has no child left deletes it (when no remote call fails and
  \<open>max_retry\<close> is positive).
\<close>

theorem empty_root_folder_is_deleted:
  "(0 < max_retry \<and> remote_faults w = [] \<and> folder_id \<noteq> [] \<and> has_node folder_id (nodes w)
      \<and> matching (parent_query folder_id) (nodes w) = [] \<longrightarrow>
     (case delete_empty_folders (Suc d) folder_id max_retry w of
        (r, w1) \<Rightarrow>
          r = Inr () \<and> \<not> has_node folder_id (nodes w1)
          \<and> folder_deletes (trace w1) = folder_deletes (trace w) @ [folder_id]))
   \<and> (download_files (Suc d) md5sum source dest_folder is_root w = (Inr (), w') \<longrightarrow>
        (\<exists>w0. delete_empty_folders d (src_id source) 5 w0 = (Inr (), w')))"
proof (intro conjI impI)
  assume a: "0 < max_retry \<and> remote_faults w = [] \<and> folder_id \<noteq> [] \<and> has_node folder_id (nodes w)
      \<and> matching (parent_query folder_id) (nodes w) = []"
  obtain r0 w0 where l: "list_sources (Some folder_id) None w = (r0, w0)"
    by (cases "list_sources (Some folder_id) None w")
  from a have q: "list_query (Some folder_id) = parent_query folder_id"
    by (simp add: list_query_def)
  from a list_sources_no_fault [OF _ l] q
  have r0: "r0 = Inr []" and nf: "remote_faults w0 = []" and ns: "nodes w0 = nodes w"
    by (simp_all add: with_key_def same_store_def)
  from a obtain rs where rs: "[0..<max_retry] = 0 # rs"
    by (auto simp: upt_conv_Cons)
  from a ns have h: "has_node folder_id (nodes w0)" by simp
  from folder_deletes_listing [OF list_sources_extends [OF l]]
  have fd: "folder_deletes (trace w0) = folder_deletes (trace w)" .
  show "case delete_empty_folders (Suc d) folder_id max_retry w of
        (r, w1) \<Rightarrow>
          r = Inr () \<and> \<not> has_node folder_id (nodes w1)
          \<and> folder_deletes (trace w1) = folder_deletes (trace w) @ [folder_id]"
    using l r0 rs delete_retry_no_fault [OF nf h, of 0 rs] fd
    by (simp add: emit_def folder_deletes_def)
next
  assume "download_files (Suc d) md5sum source dest_folder is_root w = (Inr (), w')"
  then show "\<exists>w0. delete_empty_folders d (src_id source) 5 w0 = (Inr (), w')"
    by (rule download_files_ends_with_reaper)
qed

lemma job_abc_returns:
  "fst (download_files 4 toy_md5 \<lparr>src_id = ''r'', src_name = ''Root''\<rparr> [''dst''] True
          (world_of store_abc [] [])) = Inr ()"
  by code_simp

theorem empty_root_folder_is_deleted_witness:
  "(case delete_empty_folders 1 ''r'' 5 (world_of store_root_only [] []) of
        (r, w1) \<Rightarrow>
          r = Inr () \<and> \<not> has_node ''r'' (nodes w1)
          \<and> folder_deletes (trace w1) = [''r''])
   \<and> (\<exists>w0. delete_empty_folders 3 ''r'' 5 w0
              = (Inr (), snd (download_files 4 toy_md5 \<lparr>src_id = ''r'', src_name = ''Root''\<rparr> [''dst''] True
                               (world_of store_abc [] []))))"
proof
  have h: "(0::nat) < 5 \<and> remote_faults (world_of store_root_only [] []) = [] \<and> ''r'' \<noteq> []
      \<and> has_node ''r'' (nodes (world_of store_root_only [] []))
      \<and> matching (parent_query ''r'') (nodes (world_of store_root_only [] [])) = []"
    by (simp add: world_of_def store_root_only_def has_node_def remote_node_def folder_item_def
          matching_def matches_query_def all_query_def parent_query_def)
  have t: "folder_deletes (trace (world_of store_root_only [] [])) = []"
    by (simp add: world_of_def folder_deletes_def)
  from empty_root_folder_is_deleted [where max_retry = 5 and w = "world_of store_root_only [] []"
        and folder_id = "''r''" and d = 0] h t
  show "case delete_empty_folders 1 ''r'' 5 (world_of store_root_only [] []) of
        (r, w1) \<Rightarrow>
          r = Inr () \<and> \<not> has_node ''r'' (nodes w1)
          \<and> folder_deletes (trace w1) = [''r'']"
    by (simp add: One_nat_def [symmetric] del: One_nat_def)
next
  have n: "(4::nat) = Suc 3" by simp
  have "download_files (Suc 3) toy_md5 \<lparr>src_id = ''r'', src_name = ''Root''\<rparr> [''dst''] True
          (world_of store_abc [] [])
        = (Inr (), snd (download_files 4 toy_md5 \<lparr>src_id = ''r'', src_name = ''Root''\<rparr> [''dst''] True
                          (world_of store_abc [] [])))"
    using job_abc_returns unfolding n by (metis prod.collapse)
  with empty_root_folder_is_deleted [where d = 3 and md5sum = toy_md5
        and source = "\<lparr>src_id = ''r'', src_name = ''Root''\<rparr>" and dest_folder = "[''dst'']"
        and is_root = True and w = "world_of store_abc [] []"
        and w' = "snd (download_files 4 toy_md5 \<lparr>src_id = ''r'', src_name = ''Root''\<rparr> [''dst''] True
                          (world_of store_abc [] []))"]
  show "\<exists>w0. delete_empty_folders 3 ''r'' 5 w0
              = (Inr (), snd (download_files 4 toy_md5 \<lparr>src_id = ''r'', src_name = ''Root''\<rparr> [''dst''] True
                               (world_of store_abc [] [])))"
    by simp
qed

section \<open>An empty folder identifier\<close>

lemma list_loop_first_event:
  assumes "list_loop q rk tok items w = (r, w1)"
  shows "\<exists>rest. trace w1 = trace w @ FilesList q tok # rest"
proof -
  obtain a w2 where f: "files_list_execute q tok w = (a, w2)"
    by (cases "files_list_execute q tok w")
  then have t: "trace w2 = trace w @ [FilesList q tok]"
    by (auto simp: files_list_execute_def pop_remote_fault_def emit_def Let_def
             split: list.splits fault.splits)
  have "extends (\<lambda>e. True) w2 w1"
  proof (cases a)
    case (Inl e)
    with f assms show ?thesis by (simp add: list_loop.simps [of q rk tok items w])
  next
    case (Inr p)
    obtain new nt where p: "p = (new, nt)" by (cases p)
    show ?thesis
    proof (cases nt)
      case None
      with f Inr p assms show ?thesis by (simp add: list_loop.simps [of q rk tok items w])
    next
      case (Some t)
      with f Inr p assms
      have "list_loop q rk (Some t) (items @ map (\<lambda>it. it\<lparr>resourceKey := rk\<rparr>) new) w2 = (r, w1)"
        by (simp add: list_loop.simps [of q rk tok items w])
      then show ?thesis by (rule list_loop_extends) simp
    qed
  qed
  with t show ?thesis
    by (auto simp: extends_def)
qed

lemma list_sources_first_event:
  assumes "list_sources pid rk w = (r, w1)"
  shows "\<exists>rest. trace w1 = trace w @ FilesList (list_query pid) None # rest"
proof -
  obtain a w2 where l: "list_loop (list_query pid) rk None [] w = (a, w2)"
    by (cases "list_loop (list_query pid) rk None [] w")
  from list_loop_first_event [OF l] obtain rest where
    "trace w2 = trace w @ FilesList (list_query pid) None # rest" by blast
  with assms l show ?thesis
    by (auto simp: list_sources_def emit_def split: sum.splits exn.splits)
qed

text \<open>
  Claim C10. When the folder identifier is the empty string or absent, the query of
  \<^verbatim>\<open>list_sources\<close> is \<^verbatim>\<open>trashed=false\<close>, without a parent: the first remote call of
  the listing carries this query, and when no call fails the listing returns every node
  of the store that is not trashed.
\<close>

theorem empty_root_id_lists_whole_store:
  "(parent_id = None \<or> parent_id = Some []) \<longrightarrow>
     list_query parent_id = ''trashed=false''
     \<and> (\<exists>rest. trace (snd (list_sources parent_id resource_key w))
                 = trace w @ FilesList ''trashed=false'' None # rest)
     \<and> (remote_faults w = [] \<longrightarrow>
          fst (list_sources parent_id resource_key w)
            = Inr (map (\<lambda>n. (node_item n)\<lparr>resourceKey := resource_key\<rparr>)
                       (filter (\<lambda>n. \<not> trashed n) (nodes w))))"
proof (intro impI conjI)
  assume p: "parent_id = None \<or> parent_id = Some []"
  then show q: "list_query parent_id = ''trashed=false''"
    by (auto simp: list_query_def all_query_def)
  obtain r w1 where l: "list_sources parent_id resource_key w = (r, w1)"
    by (cases "list_sources parent_id resource_key w")
  from list_sources_first_event [OF l] q l
  show "\<exists>rest. trace (snd (list_sources parent_id resource_key w))
                 = trace w @ FilesList ''trashed=false'' None # rest"
    by simp
  assume "remote_faults w = []"
  from list_sources_no_fault(1) [OF this l] q l
  show "fst (list_sources parent_id resource_key w)
            = Inr (map (\<lambda>n. (node_item n)\<lparr>resourceKey := resource_key\<rparr>)
                       (filter (\<lambda>n. \<not> trashed n) (nodes w)))"
    by (simp add: with_key_def matching_all all_query_def [symmetric] comp_def)
qed

theorem empty_root_id_lists_whole_store_witness:
  "list_query (Some []) = ''trashed=false''
   \<and> fst (list_sources (Some []) (Some []) (world_of store_abc [] []))
       = Inr (map (\<lambda>n. (node_item n)\<lparr>resourceKey := Some []\<rparr>) store_abc)
   \<and> (case main 4 toy_md5 (job_abc\<lparr>in_folder_id := []\<rparr>) (world_of store_abc [] []) of
        w \<Rightarrow> hd (trace w) = FilesList ''trashed=false'' None
              \<and> file_deletes (trace w) = [''a'', ''c'']
              \<and> local_files w [''dst'', ''A.bin''] = Some ''hello''
              \<and> local_files w [''dst'', ''C.bin''] = Some ''abc''
              \<and> nodes w = [])"
proof -
  have nf: "remote_faults (world_of store_abc [] []) = []"
    by (simp add: world_of_def)
  have nt: "filter (\<lambda>n. \<not> trashed n) (nodes (world_of store_abc [] [])) = store_abc"
    by (simp add: world_of_def store_abc_def remote_node_def)
  from empty_root_id_lists_whole_store [of "Some []" "Some []" "world_of store_abc [] []"] nf nt
  have "list_query (Some []) = ''trashed=false''
   \<and> fst (list_sources (Some []) (Some []) (world_of store_abc [] []))
       = Inr (map (\<lambda>n. (node_item n)\<lparr>resourceKey := Some []\<rparr>) store_abc)"
    by simp
  moreover have "(case main 4 toy_md5 (job_abc\<lparr>in_folder_id := []\<rparr>) (world_of store_abc [] []) of
        w \<Rightarrow> hd (trace w) = FilesList ''trashed=false'' None
              \<and> file_deletes (trace w) = [''a'', ''c'']
              \<and> local_files w [''dst'', ''A.bin''] = Some ''hello''
              \<and> local_files w [''dst'', ''C.bin''] = Some ''abc''
              \<and> nodes w = [])"
    by code_simp
  ultimately show ?thesis by blast
qed

end
